theory Spec2Isabelle
  imports Complex_Main "HOL-Library.Log_Nat"
begin

section \<open>Strings\<close>

text \<open>
  A JavaScript string is a sequence of UTF-16 code units. A code unit is modelled by its
  numeric value, a string by the list of its code units. \<open>str\<close> turns an ASCII literal
  into such a list, so that \<open>str ''Jan''\<close> is the JavaScript string \<^verbatim>\<open>"Jan"\<close>.
\<close>

type_synonym jsstring = "nat list"

definition str :: "string \<Rightarrow> jsstring" where
  "str s = map of_char s"

text \<open>
  The code units matched by \<^verbatim>\<open>\s\<close> and stripped by \<^verbatim>\<open>trim()\<close>: ECMAScript's
  WhiteSpace and LineTerminator (TAB, LF, VT, FF, CR, SP, NBSP, U+1680, U+2000..U+200A,
  U+2028, U+2029, U+202F, U+205F, U+3000, U+FEFF).
\<close>

definition isSpace :: "nat \<Rightarrow> bool" where
  "isSpace c \<longleftrightarrow>
     (9 \<le> c \<and> c \<le> 13) \<or> c = 32 \<or> c = 160 \<or> c = 5760 \<or> (8192 \<le> c \<and> c \<le> 8202) \<or>
     c = 8232 \<or> c = 8233 \<or> c = 8239 \<or> c = 8287 \<or> c = 12288 \<or> c = 65279"

text \<open>\<^verbatim>\<open>\d\<close>: the ten ASCII digits.\<close>

definition isDigit :: "nat \<Rightarrow> bool" where
  "isDigit c \<longleftrightarrow> 48 \<le> c \<and> c \<le> 57"

text \<open>
  The class of the name group: \<^verbatim>\<open>A-Z\<close>, \<^verbatim>\<open>a-z\<close>, the range from U+00C0 to U+00FF,
  \<^verbatim>\<open>0-9\<close>, underscore, hyphen and space. The pattern carries the flag \<^verbatim>\<open>i\<close>: a code
  unit belongs to the class when its canonical (upper-case) form is that of a member,
  which adds U+0178, the upper case of U+00FF, and nothing else.
\<close>

definition isNameChar :: "nat \<Rightarrow> bool" where
  "isNameChar c \<longleftrightarrow>
     (65 \<le> c \<and> c \<le> 90) \<or> (97 \<le> c \<and> c \<le> 122) \<or> (192 \<le> c \<and> c \<le> 255) \<or> c = 376 \<or>
     (48 \<le> c \<and> c \<le> 57) \<or> c = 95 \<or> c = 45 \<or> c = 32"

text \<open>\<^verbatim>\<open>[:\-]\<close>\<close>

definition isSep :: "nat \<Rightarrow> bool" where
  "isSep c \<longleftrightarrow> c = 58 \<or> c = 45"

text \<open>\<^verbatim>\<open>String.prototype.trim\<close>\<close>

definition trim :: "jsstring \<Rightarrow> jsstring" where
  "trim s = rev (dropWhile isSpace (rev (dropWhile isSpace s)))"

text \<open>
  \<^verbatim>\<open>text.split(/\r?\n/)\<close>: the pieces between the line breaks, a line break being LF or
  CR LF (a CR that no LF follows stays in its piece). The result always has a piece; the
  empty string gives the one empty piece.
\<close>

definition consHd :: "nat \<Rightarrow> jsstring list \<Rightarrow> jsstring list" where
  "consHd c ps = (case ps of [] \<Rightarrow> [[c]] | p # qs \<Rightarrow> (c # p) # qs)"

fun splitLines :: "jsstring \<Rightarrow> jsstring list" where
  "splitLines [] = [[]]"
| "splitLines [c] = (if c = 10 then [[], []] else [[c]])"
| "splitLines (c # d # cs) =
     (if c = 13 \<and> d = 10 then [] # splitLines cs
      else if c = 10 then [] # splitLines (d # cs)
      else consHd c (splitLines (d # cs)))"

text \<open>
  \<^verbatim>\<open>line.split(/\s+/)\<close>: the pieces between the maximal runs of white space.
\<close>

function splitSpaces :: "jsstring \<Rightarrow> jsstring list" where
  "splitSpaces [] = [[]]"
| "splitSpaces (c # cs) =
     (if isSpace c then [] # splitSpaces (dropWhile isSpace cs)
      else consHd c (splitSpaces cs))"
  by pat_completeness auto
termination
  by (relation "measure length") (auto simp: length_dropWhile_le less_Suc_eq_le)

section \<open>Numbers\<close>

text \<open>
  A JavaScript Number is an IEEE 754 binary64 value: not-a-number, an infinity, the
  negative zero, or a finite value, which is kept as the rational it denotes (\<open>Fin 0\<close>
  is the positive zero). The arithmetic rounds the exact result to the nearest
  representable value, ties to the even significand.
\<close>

datatype number = NaN | PInf | NInf | NegZero | Fin rat

text \<open>\<open>ilog2 r\<close> is the binary exponent of a positive rational: \<open>2 ^ e \<le> r < 2 ^ (e + 1)\<close>.\<close>

definition ilog2 :: "rat \<Rightarrow> int" where
  "ilog2 r = (if 1 \<le> r then bitlen \<lfloor>r\<rfloor> - 1
              else let b = bitlen \<lfloor>1 / r\<rfloor> in if r = 2 powi (1 - b) then 1 - b else - b)"

definition roundEven :: "rat \<Rightarrow> int" where
  "roundEven r = (let f = \<lfloor>r\<rfloor>; d = r - of_int f in
     if d < 1 / 2 then f else if 1 / 2 < d then f + 1 else if even f then f else f + 1)"

text \<open>
  Rounding a positive rational: the spacing of the doubles around it is \<open>2 ^ (e - 52)\<close>,
  with the exponent held at \<open>- 1022\<close> in the subnormal range; a value that rounds to
  \<open>2 ^ 1024\<close>, the first with a binary exponent above 1023, overflows.
\<close>

definition roundPos :: "rat \<Rightarrow> number" where
  "roundPos r = (let e = max (ilog2 r) (- 1022); q = 2 powi (e - 52);
                     v = of_int (roundEven (r / q)) * q
                 in if 1024 \<le> ilog2 v then PInf else Fin v)"

fun fneg :: "number \<Rightarrow> number" where
  "fneg NaN = NaN"
| "fneg PInf = NInf"
| "fneg NInf = PInf"
| "fneg NegZero = Fin 0"
| "fneg (Fin r) = (if r = 0 then NegZero else Fin (- r))"

definition round64 :: "rat \<Rightarrow> number" where
  "round64 r = (if r = 0 then Fin 0 else if 0 < r then roundPos r else fneg (roundPos (- r)))"

fun isNeg :: "number \<Rightarrow> bool" where
  "isNeg NInf = True"
| "isNeg NegZero = True"
| "isNeg (Fin r) = (r < 0)"
| "isNeg _ = False"

fun isZero :: "number \<Rightarrow> bool" where
  "isZero NegZero = True"
| "isZero (Fin r) = (r = 0)"
| "isZero _ = False"

fun isInf :: "number \<Rightarrow> bool" where
  "isInf PInf = True"
| "isInf NInf = True"
| "isInf _ = False"

fun isFinite :: "number \<Rightarrow> bool" where
  "isFinite NegZero = True"
| "isFinite (Fin r) = True"
| "isFinite _ = False"

text \<open>The value of a finite number.\<close>

fun valueOf :: "number \<Rightarrow> rat" where
  "valueOf (Fin r) = r"
| "valueOf _ = 0"

definition withSign :: "bool \<Rightarrow> number \<Rightarrow> number" where
  "withSign s x = (if s then fneg x else x)"

text \<open>The operators \<^verbatim>\<open>+\<close>, \<^verbatim>\<open>-\<close>, \<^verbatim>\<open>*\<close> and \<^verbatim>\<open>/\<close> on Numbers.\<close>

definition fadd :: "number \<Rightarrow> number \<Rightarrow> number" where
  "fadd x y =
     (if x = NaN \<or> y = NaN then NaN
      else if isInf x then (if isInf y \<and> x \<noteq> y then NaN else x)
      else if isInf y then y
      else if x = NegZero then y
      else if y = NegZero then x
      else round64 (valueOf x + valueOf y))"

definition fsub :: "number \<Rightarrow> number \<Rightarrow> number" where
  "fsub x y = fadd x (fneg y)"

definition fmul :: "number \<Rightarrow> number \<Rightarrow> number" where
  "fmul x y =
     (if x = NaN \<or> y = NaN then NaN
      else if isInf x \<or> isInf y
        then (if isZero x \<or> isZero y then NaN else withSign (isNeg x \<noteq> isNeg y) PInf)
      else if isZero x \<or> isZero y then withSign (isNeg x \<noteq> isNeg y) (Fin 0)
      else round64 (valueOf x * valueOf y))"

definition fdiv :: "number \<Rightarrow> number \<Rightarrow> number" where
  "fdiv x y =
     (if x = NaN \<or> y = NaN then NaN
      else if isInf x then (if isInf y then NaN else withSign (isNeg x \<noteq> isNeg y) PInf)
      else if isInf y then withSign (isNeg x \<noteq> isNeg y) (Fin 0)
      else if isZero y then (if isZero x then NaN else withSign (isNeg x \<noteq> isNeg y) PInf)
      else if isZero x then withSign (isNeg x \<noteq> isNeg y) (Fin 0)
      else round64 (valueOf x / valueOf y))"

text \<open>
  The comparisons \<^verbatim>\<open>>\<close> and \<^verbatim>\<open>===\<close>: false whenever an operand is not-a-number; the two
  zeros are equal.
\<close>

fun rank :: "number \<Rightarrow> int \<times> rat" where
  "rank PInf = (1, 0)"
| "rank NInf = (- 1, 0)"
| "rank (Fin r) = (0, r)"
| "rank _ = (0, 0)"

definition gt :: "number \<Rightarrow> number \<Rightarrow> bool" where
  "gt x y \<longleftrightarrow> x \<noteq> NaN \<and> y \<noteq> NaN \<and>
     (fst (rank y) < fst (rank x) \<or> fst (rank y) = fst (rank x) \<and> snd (rank y) < snd (rank x))"

definition strictEq :: "number \<Rightarrow> number \<Rightarrow> bool" where
  "strictEq x y \<longleftrightarrow> x \<noteq> NaN \<and> y \<noteq> NaN \<and> rank x = rank y"

text \<open>\<^verbatim>\<open>isNaN\<close>, and \<^verbatim>\<open>x || 0\<close>, which replaces the falsy Numbers (NaN and the zeros) by 0.\<close>

definition isNaN :: "number \<Rightarrow> bool" where
  "isNaN x \<longleftrightarrow> x = NaN"

definition orZero :: "number \<Rightarrow> number" where
  "orZero x = (if x = NaN \<or> isZero x then Fin 0 else x)"

text \<open>\<^verbatim>\<open>Math.abs\<close>\<close>

fun mathAbs :: "number \<Rightarrow> number" where
  "mathAbs NaN = NaN"
| "mathAbs PInf = PInf"
| "mathAbs NInf = PInf"
| "mathAbs NegZero = Fin 0"
| "mathAbs (Fin r) = Fin \<bar>r\<bar>"

text \<open>
  \<^verbatim>\<open>Math.round\<close>: the nearest integer, a tie going towards plus infinity; a negative
  value that rounds to zero gives the negative zero.
\<close>

fun mathRound :: "number \<Rightarrow> number" where
  "mathRound (Fin r) = (let n = \<lfloor>r + 1 / 2\<rfloor> in if n = 0 \<and> r < 0 then NegZero else Fin (of_int n))"
| "mathRound x = x"

text \<open>\<^verbatim>\<open>Number.EPSILON\<close>\<close>

definition EPSILON :: number where
  "EPSILON = Fin (1 / 2 ^ 52)"

text \<open>\<^verbatim>\<open>function round2(x){ return Math.round((x+Number.EPSILON)*100)/100; }\<close>\<close>

definition round2 :: "number \<Rightarrow> number" where
  "round2 x = fdiv (mathRound (fmul (fadd x EPSILON) (Fin 100))) (Fin 100)"

subsection \<open>Numbers to strings and back\<close>

text \<open>
  \<^verbatim>\<open>Number::toString\<close>, which a template literal applies to a Number: the decimal digits
  \<open>s\<close> and the exponent \<open>n\<close> are the shortest that read back as the same double
  (\<open>s * 10 ^ (n - k)\<close> rounds to it, \<open>k\<close> the number of digits of \<open>s\<close>), the closest
  to it among those. \<open>decExp r\<close> is the decimal exponent of a positive rational:
  \<open>10 ^ (n - 1) \<le> r < 10 ^ n\<close>.
\<close>

definition decExp :: "rat \<Rightarrow> int" where
  "decExp r = (if 1 \<le> r then int (floorlog 10 (nat \<lfloor>r\<rfloor>))
               else let d = int (floorlog 10 (nat \<lfloor>1 / r\<rfloor>))
                    in if r = 10 powi (1 - d) then 2 - d else 1 - d)"

definition tryDigits :: "rat \<Rightarrow> int \<Rightarrow> int \<Rightarrow> (int \<times> int) option" where
  "tryDigits r n k =
     (let e10 = 10 powi (n - k); lo = \<lfloor>r / e10\<rfloor>; hi = lo + 1;
          oklo = (round64 (of_int lo * e10) = Fin r);
          okhi = (round64 (of_int hi * e10) = Fin r);
          dlo = r - of_int lo * e10; dhi = of_int hi * e10 - r
      in if oklo \<or> okhi
         then Some (if oklo \<and> (\<not> okhi \<or> dlo < dhi \<or> (dlo = dhi \<and> even lo)) then (lo, n)
                    else if hi < 10 ^ nat k then (hi, n) else (hi div 10, n + 1))
         else None)"

fun firstSome :: "('a \<Rightarrow> 'b option) \<Rightarrow> 'a list \<Rightarrow> 'b option" where
  "firstSome f [] = None"
| "firstSome f (x # xs) = (case f x of Some y \<Rightarrow> Some y | None \<Rightarrow> firstSome f xs)"

text \<open>
  Seventeen digits are enough for every double; the last case is there for the
  rationals that are no double and is never taken on one.
\<close>

definition shortest :: "rat \<Rightarrow> int \<times> int" where
  "shortest r =
     (let n = decExp r
      in case firstSome (tryDigits r n) [1, 2, 3, 4, 5, 6, 7, 8, 9, 10, 11, 12, 13, 14, 15, 16, 17] of
           Some sn \<Rightarrow> sn
         | None \<Rightarrow> (\<lfloor>r / 10 powi (n - 17)\<rfloor>, n))"

function digitsOf :: "nat \<Rightarrow> jsstring" where
  "digitsOf n = (if n < 10 then [48 + n] else digitsOf (n div 10) @ [48 + n mod 10])"
  by pat_completeness auto
termination
  by (relation "measure id") auto

declare digitsOf.simps [simp del]

definition posToString :: "rat \<Rightarrow> jsstring" where
  "posToString r =
     (let (s, n) = shortest r; d = digitsOf (nat s); k = int (length d)
      in if k \<le> n \<and> n \<le> 21 then d @ replicate (nat (n - k)) 48
         else if 0 < n \<and> n \<le> 21 then take (nat n) d @ [46] @ drop (nat n) d
         else if - 6 < n \<and> n \<le> 0 then [48, 46] @ replicate (nat (- n)) 48 @ d
         else let e = n - 1; es = (if 0 \<le> e then 43 else 45) # digitsOf (nat \<bar>e\<bar>)
              in if k = 1 then d @ [101] @ es else hd d # 46 # tl d @ [101] @ es)"

fun numberToString :: "number \<Rightarrow> jsstring" where
  "numberToString NaN = str ''NaN''"
| "numberToString PInf = str ''Infinity''"
| "numberToString NInf = str ''-Infinity''"
| "numberToString NegZero = str ''0''"
| "numberToString (Fin r) =
     (if r = 0 then str ''0'' else if r < 0 then 45 # posToString (- r) else posToString r)"

text \<open>
  \<^verbatim>\<open>parseInt(s, 10)\<close>: leading white space and a sign are skipped, the longest run of
  digits is read, and no digit at all gives NaN. The result is the double nearest to the
  integer read (for more than twenty digits ECMAScript lets an implementation read an
  approximation of it).
\<close>

definition digitsValue :: "jsstring \<Rightarrow> nat" where
  "digitsValue ds = foldl (\<lambda>a c. 10 * a + (c - 48)) 0 ds"

definition parseInt :: "jsstring \<Rightarrow> number" where
  "parseInt s =
     (let S = dropWhile isSpace s;
          neg = (S \<noteq> [] \<and> hd S = 45);
          S' = (if S \<noteq> [] \<and> (hd S = 43 \<or> hd S = 45) then tl S else S);
          Z = takeWhile isDigit S'
      in if Z = [] then NaN
         else if digitsValue Z = 0 then (if neg then NegZero else Fin 0)
         else round64 (if neg then - of_nat (digitsValue Z) else of_nat (digitsValue Z)))"

section \<open>The parser\<close>

record pair =
  name :: jsstring
  km :: number

text \<open>
  The pattern \<^verbatim>\<open>nameKmRegex\<close> is a sequence of greedy quantifiers over character classes,
  matched with backtracking. The model follows ECMAScript's matcher: each piece takes the
  rest of the string and a continuation, the match of everything after it, and gives the
  first success. \<open>rep p lo hi acc s k\<close> is the quantifier \<^verbatim>\<open>{lo,hi}\<close> (\<open>None\<close> for no upper
  bound) over the class \<open>p\<close>: it first tries one more character and only then, when at
  least \<open>lo\<close> have been taken, the continuation; \<open>acc\<close> holds the characters taken.
\<close>

fun rep :: "(nat \<Rightarrow> bool) \<Rightarrow> nat \<Rightarrow> nat option \<Rightarrow> jsstring \<Rightarrow> jsstring \<Rightarrow>
    (jsstring \<Rightarrow> jsstring \<Rightarrow> 'a option) \<Rightarrow> 'a option" where
  "rep p lo hi acc s k =
     (if hi = Some 0 then k acc s
      else case (case s of
                   [] \<Rightarrow> None
                 | c # t \<Rightarrow> if p c then rep p (lo - 1) (map_option (\<lambda>n. n - 1) hi) (acc @ [c]) t k
                            else None) of
             Some z \<Rightarrow> Some z
           | None \<Rightarrow> if lo = 0 then k acc s else None)"

declare rep.simps [simp del]

text \<open>One letter of \<^verbatim>\<open>km\<close>, in either case.\<close>

definition letter :: "nat \<Rightarrow> jsstring \<Rightarrow> (jsstring \<Rightarrow> 'a option) \<Rightarrow> 'a option" where
  "letter u s k = (case s of [] \<Rightarrow> None | c # r \<Rightarrow> if c = u \<or> c = u + 32 then k r else None)"

text \<open>\<^verbatim>\<open>(?:\s*km)?\<close>: the unit if it is there, nothing otherwise.\<close>

definition unit :: "jsstring \<Rightarrow> (jsstring \<Rightarrow> 'a option) \<Rightarrow> 'a option" where
  "unit s k =
     (case rep isSpace 0 None [] s (\<lambda>w r0. letter 75 r0 (\<lambda>r1. letter 77 r1 k)) of
        Some z \<Rightarrow> Some z
      | None \<Rightarrow> k s)"

text \<open>
  \<^verbatim>\<open>/([A-Za-z..0-9_\- ]{2,30})\s*[:\-]?\s*(\d{1,6})(?:\s*km)?/i\<close> at the front of a string:
  the captures of groups 1 and 2.
\<close>

definition matchHere :: "jsstring \<Rightarrow> (jsstring \<times> jsstring) option" where
  "matchHere s =
     rep isNameChar 2 (Some 30) [] s (\<lambda>g1 r1.
     rep isSpace 0 None [] r1 (\<lambda>w1 r2.
     rep isSep 0 (Some 1) [] r2 (\<lambda>sp r3.
     rep isSpace 0 None [] r3 (\<lambda>w2 r4.
     rep isDigit 1 (Some 6) [] r4 (\<lambda>g2 r5.
     unit r5 (\<lambda>r6. Some (g1, g2)))))))"

text \<open>
  \<^verbatim>\<open>line.match(nameKmRegex)\<close>: the pattern is not anchored, so the match is tried at
  every position from the left; the result is the pair of captures \<open>(m[1], m[2])\<close> of
  the first match, or \<open>None\<close> for \<^verbatim>\<open>null\<close>.
\<close>

fun nameKmMatch :: "jsstring \<Rightarrow> (jsstring \<times> jsstring) option" where
  "nameKmMatch s =
     (case matchHere s of
        Some m \<Rightarrow> Some m
      | None \<Rightarrow> (case s of [] \<Rightarrow> None | c # t \<Rightarrow> nameKmMatch t))"

declare nameKmMatch.simps [simp del]

text \<open>
  Reading an array outside its bounds gives \<^verbatim>\<open>undefined\<close>; calling \<^verbatim>\<open>replace\<close> on it
  raises a TypeError, and a pair whose name is \<^verbatim>\<open>undefined\<close> is no record.
\<close>

datatype error = TypeError | UndefinedName

definition nthOpt :: "'a list \<Rightarrow> nat \<Rightarrow> 'a option" where
  "nthOpt xs i = (if i < length xs then Some (xs ! i) else None)"

text \<open>
  The loop over the tokens of a line, \<open>i\<close> the loop variable and \<open>pairs\<close> the records
  pushed so far. \<^verbatim>\<open>replace(/\D/g,'')\<close> keeps the digits; the test is that of the source,
  \<^verbatim>\<open>maybeKm && /^\d+$/.test(maybeKm)\<close>.
\<close>

function tokenLoop :: "jsstring list \<Rightarrow> nat \<Rightarrow> pair list \<Rightarrow> error + pair list" where
  "tokenLoop tokens i pairs =
     (if int i < int (length tokens) - 1 then
        (case nthOpt tokens i of
           None \<Rightarrow> Inl UndefinedName
         | Some maybeName \<Rightarrow>
             (case nthOpt tokens (i + 1) of
                None \<Rightarrow> Inl TypeError
              | Some t \<Rightarrow>
                  (let maybeKm = filter isDigit t
                   in tokenLoop tokens (i + 2)
                        (if maybeKm \<noteq> [] \<and> list_all isDigit maybeKm
                         then pairs @ [\<lparr>name = maybeName, km = parseInt maybeKm\<rparr>]
                         else pairs))))
      else Inr pairs)"
  by pat_completeness auto
termination
  by (relation "measure (\<lambda>(tokens, i, pairs). length tokens - i)") auto

declare tokenLoop.simps [simp del]

text \<open>The body of the loop over the lines.\<close>

definition parseLine :: "jsstring \<Rightarrow> pair list \<Rightarrow> error + pair list" where
  "parseLine line pairs =
     (case nameKmMatch line of
        Some (g1, g2) \<Rightarrow>
          (let name = trim g1; km = parseInt g2
           in Inr (if \<not> isNaN km then pairs @ [\<lparr>name = name, km = km\<rparr>] else pairs))
      | None \<Rightarrow> tokenLoop (splitSpaces line) 0 pairs)"

fun parseLoop :: "jsstring list \<Rightarrow> pair list \<Rightarrow> error + pair list" where
  "parseLoop [] pairs = Inr pairs"
| "parseLoop (line # lines) pairs =
     (case parseLine line pairs of Inl e \<Rightarrow> Inl e | Inr pairs' \<Rightarrow> parseLoop lines pairs')"

text \<open>\<^verbatim>\<open>text.split(/\r?\n/).map(l => l.trim()).filter(Boolean)\<close>\<close>

definition textLines :: "jsstring \<Rightarrow> jsstring list" where
  "textLines text = filter (\<lambda>l. l \<noteq> []) (map trim (splitLines text))"

definition parseLinesToPairs :: "jsstring \<Rightarrow> error + pair list" where
  "parseLinesToPairs text = parseLoop (textLines text) []"

section \<open>Shares, settlement and summary\<close>

text \<open>
  The component \<^verbatim>\<open>App\<close> derives everything from its state, the rows (each a
  \<^verbatim>\<open>{name, km}\<close> whose \<^verbatim>\<open>km\<close> is a Number) and the amount. A computed row adds the
  fields \<^verbatim>\<open>pct\<close> and \<^verbatim>\<open>euros\<close>.
\<close>

record crow = pair +
  pct :: number
  euros :: number

text \<open>\<^verbatim>\<open>rows.reduce((s, r) => s + (Number(r.km)||0), 0)\<close>\<close>

definition totalKm :: "pair list \<Rightarrow> number" where
  "totalKm rows = foldl (\<lambda>s r. fadd s (orZero (km r))) (Fin 0) rows"

definition computed :: "pair list \<Rightarrow> number \<Rightarrow> crow list" where
  "computed rows amount =
     map (\<lambda>r. let km' = orZero (km r);
                   pct' = (if gt (totalKm rows) (Fin 0) then fdiv km' (totalKm rows) else Fin 0);
                   euros' = round2 (fmul amount pct')
               in \<lparr>name = name r, km = km r, pct = round2 (fmul pct' (Fin 100)), euros = euros'\<rparr>)
         rows"

text \<open>The dash U+2014 and the euro sign U+20AC of the texts.\<close>

definition dash :: jsstring where
  "dash = [8212]"

definition euro :: jsstring where
  "euro = [8364]"

text \<open>
  The text \<^verbatim>\<open>summary\<close>. In the first branch the rows are two, and \<open>a\<close> and \<open>b\<close> are the
  two computed rows.
\<close>

definition summary :: "pair list \<Rightarrow> number \<Rightarrow> jsstring" where
  "summary rows amount =
     (if length rows = 2 \<and> gt (totalKm rows) (Fin 0) then
        (let a = computed rows amount ! 0; b = computed rows amount ! 1;
             diff = round2 (mathAbs (fsub (euros a) (euros b)))
         in if strictEq diff (Fin 0)
            then str ''Geen betaling nodig '' @ dash @ str '' bedragen zijn gelijk.''
            else if gt (euros a) (euros b)
            then name b @ str '' moet '' @ euro @ numberToString (round2 (fsub (euros a) (euros b)))
                 @ str '' aan '' @ name a @ str '' betalen.''
            else name a @ str '' moet '' @ euro @ numberToString (round2 (fsub (euros b) (euros a)))
                 @ str '' aan '' @ name b @ str '' betalen.'')
      else if strictEq (totalKm rows) (Fin 0)
        then str ''Voer kilometers in om een samenvatting te krijgen.''
      else str ''Bekijk de bedragen per persoon. Voor betalingen, vergelijk wie minder heeft bijgedragen en regel onderling de betaling.'')"

text \<open>
  The text that \<^verbatim>\<open>copyTikkieText\<close> builds and hands to the clipboard: \<open>tikkieText\<close>
  is the function of the three values it reads, \<open>copyTikkieText\<close> the text for a state.
\<close>

definition tikkieText :: "number \<Rightarrow> crow list \<Rightarrow> jsstring \<Rightarrow> jsstring" where
  "tikkieText amount cs summ =
     foldl (\<lambda>text c. text @ name c @ str '': '' @ numberToString (km c) @ str '' km '' @ dash
                        @ str '' '' @ numberToString (pct c) @ str ''% '' @ dash @ str '' '' @ euro
                        @ numberToString (euros c) @ [10])
           (str ''Tankbeurt '' @ dash @ str '' totaal '' @ euro @ numberToString amount @ [10, 10])
           cs
     @ [10] @ str ''Samenvatting: '' @ summ"

definition copyTikkieText :: "pair list \<Rightarrow> number \<Rightarrow> jsstring" where
  "copyTikkieText rows amount = tikkieText amount (computed rows amount) (summary rows amount)"

section \<open>Notions of the specification\<close>

text \<open>
  The finite doubles: a significand below \<open>2 ^ 53\<close> at an exponent from \<open>- 1074\<close>, the
  value below \<open>2 ^ 1024\<close>.
\<close>

definition isDouble :: "rat \<Rightarrow> bool" where
  "isDouble r \<longleftrightarrow>
     (\<exists>m x. r = of_int m * 2 powi x \<and> \<bar>m\<bar> < 2 ^ 53 \<and> - 1074 \<le> x \<and> x + bitlen \<bar>m\<bar> \<le> 1024)"

text \<open>
  The primary pattern in the words of the specification: a string matches when it is a
  name of 2 to 30 name characters, white space, at most one separator, white space, 1 to
  6 digits and an optional unit, \<^verbatim>\<open>km\<close> in either case after white space. A line has a
  match when a substring of it matches.
\<close>

definition isUnit :: "jsstring \<Rightarrow> bool" where
  "isUnit un \<longleftrightarrow>
     un = [] \<or> (\<exists>w k m. un = w @ [k, m] \<and> list_all isSpace w \<and> (k = 75 \<or> k = 107) \<and> (m = 77 \<or> m = 109))"

definition matchesAs :: "jsstring \<Rightarrow> jsstring \<Rightarrow> jsstring \<Rightarrow> bool" where
  "matchesAs u g1 g2 \<longleftrightarrow>
     (\<exists>w1 sp w2 un. u = g1 @ w1 @ sp @ w2 @ g2 @ un \<and>
        2 \<le> length g1 \<and> length g1 \<le> 30 \<and> list_all isNameChar g1 \<and>
        list_all isSpace w1 \<and> length sp \<le> 1 \<and> list_all isSep sp \<and> list_all isSpace w2 \<and>
        1 \<le> length g2 \<and> length g2 \<le> 6 \<and> list_all isDigit g2 \<and> isUnit un)"


text \<open>
  Token pairing in the words of the specification: the tokens are walked two at a time;
  the first of a pair is the name, the digits of the second the distance, and the pair is
  a record when there is a digit. A last token without a partner is dropped.
\<close>

fun tokenPairs :: "jsstring list \<Rightarrow> pair list" where
  "tokenPairs (n # t # rest) =
     (if filter isDigit t \<noteq> [] then [\<lparr>name = n, km = parseInt (filter isDigit t)\<rparr>] else [])
     @ tokenPairs rest"
| "tokenPairs _ = []"

text \<open>A prefix of the string matches the pattern, with the captures \<open>g1\<close> and \<open>g2\<close>.\<close>

definition prefixMatch :: "jsstring \<Rightarrow> jsstring \<Rightarrow> jsstring \<Rightarrow> bool" where
  "prefixMatch s g1 g2 \<longleftrightarrow>
     (\<exists>w1 sp w2 post. s = g1 @ w1 @ sp @ w2 @ g2 @ post \<and>
        2 \<le> length g1 \<and> length g1 \<le> 30 \<and> list_all isNameChar g1 \<and>
        list_all isSpace w1 \<and> length sp \<le> 1 \<and> list_all isSep sp \<and> list_all isSpace w2 \<and>
        1 \<le> length g2 \<and> length g2 \<le> 6 \<and> list_all isDigit g2)"

text \<open>
  The records of one line: the one record of the primary pattern when the line has a
  match, the token pairs otherwise.
\<close>

definition lineRecords :: "jsstring \<Rightarrow> pair list" where
  "lineRecords line =
     (case nameKmMatch line of
        Some (g1, g2) \<Rightarrow> [\<lparr>name = trim g1, km = Fin (of_nat (digitsValue g2))\<rparr>]
      | None \<Rightarrow> tokenPairs (splitSpaces line))"

text \<open>
  A Number is genuine when, if finite, its value is a double. The arithmetic only
  produces genuine Numbers.
\<close>

fun genuine :: "number \<Rightarrow> bool" where
  "genuine (Fin r) = isDouble r"
| "genuine _ = True"

text \<open>A distance of the data model: a non-negative integer.\<close>

definition isNatural :: "number \<Rightarrow> bool" where
  "isNatural x = (case x of Fin r \<Rightarrow> 0 \<le> r \<and> r = of_int \<lfloor>r\<rfloor> | _ \<Rightarrow> False)"

text \<open>The sum of the distances, as a number of mathematics.\<close>

definition kmSum :: "pair list \<Rightarrow> rat" where
  "kmSum rows = sum_list (map (\<lambda>r. valueOf (km r)) rows)"

text \<open>
  The settlement directive of the specification and the sentence of each variant.
\<close>

datatype directive = NoPaymentNeeded | PayFromTo jsstring jsstring number | AwaitInput | GenericAdvice

fun sentence :: "directive \<Rightarrow> jsstring" where
  "sentence NoPaymentNeeded = str ''Geen betaling nodig '' @ dash @ str '' bedragen zijn gelijk.''"
| "sentence (PayFromTo payer payee amt) =
     payer @ str '' moet '' @ euro @ numberToString amt @ str '' aan '' @ payee @ str '' betalen.''"
| "sentence AwaitInput = str ''Voer kilometers in om een samenvatting te krijgen.''"
| "sentence GenericAdvice = str ''Bekijk de bedragen per persoon. Voor betalingen, vergelijk wie minder heeft bijgedragen en regel onderling de betaling.''"

text \<open>The difference of the two-party rule: \<open>round2(abs(A.amount - B.amount))\<close>.\<close>

definition settleDiff :: "crow \<Rightarrow> crow \<Rightarrow> number" where
  "settleDiff a b = round2 (mathAbs (fsub (euros a) (euros b)))"

text \<open>
  The layout of the summary text: lines separated by line feeds, which are the header,
  an empty line, a line for each share, an empty line and the summary line.
\<close>

fun joinLines :: "jsstring list \<Rightarrow> jsstring" where
  "joinLines [] = []"
| "joinLines [l] = l"
| "joinLines (l # ls) = l @ [10] @ joinLines ls"

definition shareLine :: "crow \<Rightarrow> jsstring" where
  "shareLine c = name c @ str '': '' @ numberToString (km c) @ str '' km '' @ dash @ str '' ''
     @ numberToString (pct c) @ str ''% '' @ dash @ str '' '' @ euro @ numberToString (euros c)"

definition summaryLayout :: "number \<Rightarrow> crow list \<Rightarrow> directive \<Rightarrow> jsstring" where
  "summaryLayout amount cs d =
     joinLines ([str ''Tankbeurt '' @ dash @ str '' totaal '' @ euro @ numberToString amount, []]
                @ map shareLine cs
                @ [[], str ''Samenvatting: '' @ sentence d])"

text \<open>
  The integer that \<^verbatim>\<open>Math.round((x+Number.EPSILON)*100)\<close> gives inside \<open>round2\<close>, the
  number of cents of the result.
\<close>

definition roundedCents :: "number \<Rightarrow> int" where
  "roundedCents x = \<lfloor>valueOf (fmul (fadd x EPSILON) (Fin 100)) + 1 / 2\<rfloor>"

text \<open>Rounding to the nearest integer with a tie going away from zero.\<close>

definition halfAway :: "rat \<Rightarrow> int" where
  "halfAway r = (if 0 \<le> r then \<lfloor>r + 1 / 2\<rfloor> else - \<lfloor>- r + 1 / 2\<rfloor>)"

text \<open>The sums of the computed amounts and percentages, as numbers of mathematics.\<close>

definition eurosSum :: "crow list \<Rightarrow> rat" where
  "eurosSum cs = sum_list (map (\<lambda>c. valueOf (euros c)) cs)"

definition pctSum :: "crow list \<Rightarrow> rat" where
  "pctSum cs = sum_list (map (\<lambda>c. valueOf (pct c)) cs)"

text \<open>States of the rows, for the examples.\<close>

definition rows1 :: "pair list" where
  "rows1 = [\<lparr>name = str ''A'', km = Fin 150\<rparr>, \<lparr>name = str ''B'', km = Fin 50\<rparr>]"

definition rowsZero :: "pair list" where
  "rowsZero = [\<lparr>name = str ''A'', km = Fin 0\<rparr>, \<lparr>name = str ''B'', km = Fin 0\<rparr>]"

definition rows12 :: "pair list" where
  "rows12 = [\<lparr>name = str ''A'', km = Fin 1\<rparr>, \<lparr>name = str ''B'', km = Fin 2\<rparr>]"

definition rowsThree :: "pair list" where
  "rowsThree = [\<lparr>name = str ''A'', km = Fin 1\<rparr>, \<lparr>name = str ''B'', km = Fin 1\<rparr>,
                \<lparr>name = str ''C'', km = Fin 1\<rparr>]"

text \<open>\<open>boundOk hi n\<close>: the count \<open>n\<close> respects the upper bound of a quantifier.\<close>

definition boundOk :: "nat option \<Rightarrow> nat \<Rightarrow> bool" where
  "boundOk hi n = (case hi of None \<Rightarrow> True | Some h \<Rightarrow> n \<le> h)"

section \<open>Evaluation\<close>

text \<open>
  The floor of a fraction of numerals is an integer division; with it the simplifier
  evaluates the arithmetic of Numbers on concrete values.
\<close>

lemma floor_frac_num: "\<lfloor>numeral a / numeral b :: rat\<rfloor> = numeral a div numeral b"
  using floor_divide_of_int_eq [of "numeral a" "numeral b", where ?'a = rat] by simp

lemma floor_frac_neg: "\<lfloor>- (numeral a / numeral b) :: rat\<rfloor> = - numeral a div numeral b"
  using floor_divide_of_int_eq [of "- numeral a" "numeral b", where ?'a = rat] by simp

lemmas num_eval = round64_def roundPos_def ilog2_def roundEven_def Let_def compute_bitlen
  power_int_minus floor_frac_num floor_frac_neg fadd_def fsub_def fmul_def fdiv_def withSign_def
  EPSILON_def round2_def gt_def strictEq_def orZero_def isNaN_def

lemmas parse_eval = str_def parseLinesToPairs_def textLines_def trim_def parseLine_def nameKmMatch.simps
  matchHere_def rep.simps unit_def letter_def isNameChar_def isSpace_def isSep_def isDigit_def
  parseInt_def digitsValue_def tokenLoop.simps nthOpt_def consHd_def

lemmas str_eval = numberToString.simps posToString_def shortest_def decExp_def tryDigits_def
  firstSome.simps digitsOf.simps compute_floorlog str_def dash_def euro_def

section \<open>Rounding\<close>

lemma two_powi_pos: "(0::rat) < 2 powi e"
  by (simp add: zero_less_power_int)

lemma two_powi_Suc: "(2::rat) powi (e + 1) = 2 * 2 powi e"
  by (simp add: power_int_add)

lemma ilog2_bounds:
  assumes "0 < r"
  shows "2 powi (ilog2 r) \<le> r \<and> r < 2 powi (ilog2 r + 1)"
proof (cases "1 \<le> r")
  case True
  define f where "f = \<lfloor>r\<rfloor>"
  have f1: "1 \<le> f" using True by (simp add: f_def le_floor_iff)
  then have f0: "0 < f" by simp
  from bitlen_bounds [OF f0] have lo: "2 ^ nat (bitlen f - 1) \<le> f" and hi: "f < 2 ^ nat (bitlen f)"
    by auto
  have b1: "1 \<le> bitlen f" using f0 by (simp add: bitlen_alt_def)
  have e: "ilog2 r = bitlen f - 1" using True by (simp add: ilog2_def f_def)
  have "(2::rat) powi (bitlen f - 1) = of_int (2 ^ nat (bitlen f - 1))"
    using b1 by (simp add: power_int_def)
  also have "\<dots> \<le> of_int f" using lo by (simp only: of_int_le_iff)
  also have "\<dots> \<le> r" by (simp add: f_def)
  finally have A: "2 powi (ilog2 r) \<le> r" by (simp add: e)
  have "f + 1 \<le> 2 ^ nat (bitlen f)" using hi by simp
  then have "(of_int (f + 1) :: rat) \<le> of_int (2 ^ nat (bitlen f))" by (simp only: of_int_le_iff)
  moreover have "r < of_int (f + 1)" using floor_correct [of r] by (simp add: f_def)
  moreover have "(of_int (2 ^ nat (bitlen f)) :: rat) = 2 powi (bitlen f)"
    using b1 by (simp add: power_int_def)
  ultimately have "r < 2 powi (ilog2 r + 1)" by (simp add: e)
  with A show ?thesis by simp
next
  case False
  then have r1: "r < 1" by simp
  define y where "y = 1 / r"
  have y1: "1 < y" using assms r1 by (simp add: y_def)
  define f where "f = \<lfloor>y\<rfloor>"
  have f1: "1 \<le> f" using y1 by (simp add: f_def le_floor_iff)
  then have f0: "0 < f" by simp
  define b where "b = bitlen f"
  from bitlen_bounds [OF f0] have lo: "2 ^ nat (b - 1) \<le> f" and hi: "f < 2 ^ nat b"
    by (auto simp: b_def)
  have b1: "1 \<le> b" using f0 by (simp add: bitlen_alt_def b_def)
  have "(2::rat) powi (b - 1) = of_int (2 ^ nat (b - 1))"
    using b1 by (simp add: power_int_def)
  also have "\<dots> \<le> of_int f" using lo by (simp only: of_int_le_iff)
  also have "\<dots> \<le> y" by (simp add: f_def)
  finally have ylo: "2 powi (b - 1) \<le> y" .
  have "f + 1 \<le> 2 ^ nat b" using hi by simp
  then have "(of_int (f + 1) :: rat) \<le> of_int (2 ^ nat b)" by (simp only: of_int_le_iff)
  moreover have "y < of_int (f + 1)" using floor_correct [of y] by (simp add: f_def)
  moreover have "(of_int (2 ^ nat b) :: rat) = 2 powi b"
    using b1 by (simp add: power_int_def)
  ultimately have yhi: "y < 2 powi b" by simp
  have ry: "r = 1 / y" using assms by (simp add: y_def)
  have y0: "0 < y" using y1 by simp
  have rhi: "r \<le> 2 powi (1 - b)"
  proof -
    have "1 / y \<le> 1 / 2 powi (b - 1)"
      using ylo two_powi_pos [of "b - 1"] by (simp add: frac_le)
    also have "1 / (2::rat) powi (b - 1) = 2 powi (1 - b)"
      using power_int_minus [of "2::rat" "b - 1"] by (simp add: field_simps)
    finally show ?thesis by (simp add: ry)
  qed
  have rlo: "2 powi (- b) < r"
  proof -
    have "1 / 2 powi b < 1 / y"
      using yhi y0 by (simp add: frac_less2)
    moreover have "1 / (2::rat) powi b = 2 powi (- b)"
      using power_int_minus [of "2::rat" "b"] by (simp add: field_simps)
    ultimately show ?thesis by (simp add: ry)
  qed
  have e: "ilog2 r = (if r = 2 powi (1 - b) then 1 - b else - b)"
    using False by (simp add: ilog2_def Let_def b_def f_def y_def)
  show ?thesis
  proof (cases "r = 2 powi (1 - b)")
    case True
    have "ilog2 r = 1 - b" using e True by simp
    moreover have "r < 2 powi (1 - b + 1)"
      using True two_powi_pos [of "1 - b"] two_powi_Suc [of "1 - b"] by linarith
    ultimately show ?thesis using True by simp
  next
    case False
    have "ilog2 r = - b" using e False by simp
    moreover have "- b + 1 = 1 - b" by simp
    then have "r < 2 powi (- b + 1)" using rhi False by simp
    ultimately show ?thesis using rlo by simp
  qed
qed

lemma roundEven_of_int: "roundEven (of_int k) = k"
  by (simp add: roundEven_def)


lemma ilog2_unique:
  assumes "2 powi e \<le> r" "r < 2 powi (e + 1)"
  shows "ilog2 r = e"
proof -
  have r0: "0 < r" using assms(1) two_powi_pos [of e] by linarith
  from ilog2_bounds [OF r0] have b: "2 powi (ilog2 r) \<le> r" "r < 2 powi (ilog2 r + 1)" by auto
  have "\<not> e + 1 \<le> ilog2 r"
  proof
    assume "e + 1 \<le> ilog2 r"
    then have "(2::rat) powi (e + 1) \<le> 2 powi (ilog2 r)" by (intro power_int_increasing) auto
    with b(1) assms(2) show False by linarith
  qed
  moreover have "\<not> ilog2 r + 1 \<le> e"
  proof
    assume "ilog2 r + 1 \<le> e"
    then have "(2::rat) powi (ilog2 r + 1) \<le> 2 powi e" by (intro power_int_increasing) auto
    with b(2) assms(1) show False by linarith
  qed
  ultimately show ?thesis by linarith
qed

lemma ilog2_dyadic:
  assumes "0 < m"
  shows "ilog2 (of_int m * 2 powi x) = x + bitlen m - 1"
proof (rule ilog2_unique)
  from bitlen_bounds [OF assms] have lo: "2 ^ nat (bitlen m - 1) \<le> m" and hi: "m < 2 ^ nat (bitlen m)"
    by auto
  have b1: "1 \<le> bitlen m" using assms by (simp add: bitlen_alt_def)
  have p1: "(2::rat) powi (bitlen m - 1) = of_int (2 ^ nat (bitlen m - 1))"
    using b1 by (simp add: power_int_def)
  have p2: "(2::rat) powi (bitlen m) = of_int (2 ^ nat (bitlen m))"
    using b1 by (simp add: power_int_def)
  have "(2::rat) powi (x + bitlen m - 1) = 2 powi (bitlen m - 1) * 2 powi x"
    by (simp flip: power_int_add add: algebra_simps)
  also have "\<dots> \<le> of_int m * 2 powi x"
  proof -
    have "(of_int (2 ^ nat (bitlen m - 1)) :: rat) \<le> of_int m" using lo by (simp only: of_int_le_iff)
    moreover have "(0::rat) \<le> 2 powi x" using two_powi_pos [of x] by simp
    ultimately show ?thesis unfolding p1 by (rule mult_right_mono)
  qed
  finally show "(2::rat) powi (x + bitlen m - 1) \<le> of_int m * 2 powi x" .
  have "of_int m * 2 powi x < (2::rat) powi (bitlen m) * 2 powi x"
  proof -
    have "(of_int m :: rat) < of_int (2 ^ nat (bitlen m))" using hi by (simp only: of_int_less_iff)
    then show ?thesis unfolding p2 using two_powi_pos [of x] by (rule mult_strict_right_mono)
  qed
  also have "\<dots> = 2 powi (x + bitlen m - 1 + 1)"
    by (simp flip: power_int_add add: algebra_simps)
  finally show "of_int m * 2 powi x < (2::rat) powi (x + bitlen m - 1 + 1)" .
qed

lemma roundPos_exact:
  assumes "0 < m" "m < 2 ^ 53" "- 1074 \<le> x" "x + bitlen m \<le> 1024"
  shows "roundPos (of_int m * 2 powi x) = Fin (of_int m * 2 powi x)"
proof -
  let ?r = "of_int m * 2 powi x :: rat"
  have e: "ilog2 ?r = x + bitlen m - 1" by (rule ilog2_dyadic [OF assms(1)])
  have bm: "bitlen m \<le> 53"
    using assms(2) by (simp add: bitlen_le_iff_power)
  define E where "E = max (ilog2 ?r) (- 1022)"
  have d: "0 \<le> x - (E - 52)"
    using e bm assms(3) by (auto simp: E_def max_def)
  have "?r / 2 powi (E - 52) = of_int m * 2 powi (x - (E - 52))"
    by (simp add: power_int_diff)
  also have "\<dots> = of_int (m * 2 ^ nat (x - (E - 52)))"
    using d by (simp add: power_int_def)
  finally have q: "roundEven (?r / 2 powi (E - 52)) = m * 2 ^ nat (x - (E - 52))"
    by (simp only: roundEven_of_int)
  have "(of_int (m * 2 ^ nat (x - (E - 52))) :: rat) * 2 powi (E - 52) = of_int m * (2 powi (x - (E - 52)) * 2 powi (E - 52))"
    using d by (simp add: power_int_def)
  also have "\<dots> = ?r"
    by (simp flip: power_int_add)
  finally have v: "of_int (roundEven (?r / 2 powi (E - 52))) * 2 powi (E - 52) = ?r"
    using q by simp
  have "\<not> 1024 \<le> ilog2 ?r" using e assms(4) by simp
  then show ?thesis
    using v by (simp add: roundPos_def Let_def E_def [symmetric])
qed

lemma round64_exact:
  assumes "isDouble r"
  shows "round64 r = Fin r"
proof -
  from assms obtain m x where mx: "r = of_int m * 2 powi x" "\<bar>m\<bar> < 2 ^ 53" "- 1074 \<le> x"
    "x + bitlen \<bar>m\<bar> \<le> 1024" by (auto simp: isDouble_def)
  consider "m = 0" | "0 < m" | "m < 0" by linarith
  then show ?thesis
  proof cases
    case 1
    then show ?thesis using mx by (simp add: round64_def)
  next
    case 2
    then have "0 < r" using mx(1) two_powi_pos [of x] by simp
    moreover have "roundPos r = Fin r"
      using roundPos_exact [of m x] 2 mx by simp
    ultimately show ?thesis by (simp add: round64_def)
  next
    case 3
    then have r0: "r < 0" using mx(1) two_powi_pos [of x] by (simp add: mult_neg_pos)
    have "roundPos (of_int (- m) * 2 powi x) = Fin (of_int (- m) * 2 powi x)"
      using roundPos_exact [of "- m" x] 3 mx by simp
    then have "roundPos (- r) = Fin (- r)" using mx(1) by simp
    then show ?thesis using r0 by (simp add: round64_def)
  qed
qed

lemma isDouble_of_nat:
  assumes "n \<le> 2 ^ 53"
  shows "isDouble (of_nat n)"
proof (cases "n = 2 ^ 53")
  case True
  have "(of_nat n :: rat) = of_int 1 * 2 powi 53" using True by simp
  moreover have "bitlen 1 = 1" by (simp add: compute_bitlen)
  ultimately show ?thesis
    unfolding isDouble_def by (intro exI [of _ 1] exI [of _ 53]) simp
next
  case False
  with assms have lt: "n < 2 ^ 53" by simp
  then have "int n < 2 ^ 53" by (metis of_nat_less_iff of_nat_numeral of_nat_power)
  then have b: "bitlen (int n) \<le> 53" by (simp add: bitlen_le_iff_power)
  have "(of_nat n :: rat) = of_int (int n) * 2 powi 0" by simp
  then show ?thesis
    unfolding isDouble_def using b \<open>int n < 2 ^ 53\<close>
    by (intro exI [of _ "int n"] exI [of _ 0]) simp
qed

lemma round64_of_nat: "n \<le> 2 ^ 53 \<Longrightarrow> round64 (of_nat n) = Fin (of_nat n)"
  by (rule round64_exact [OF isDouble_of_nat])

section \<open>The parser on the documented examples\<close>

text \<open>
  C1. The comment of \<^verbatim>\<open>parseLinesToPairs\<close> names three lines it supports. On
  \<^verbatim>\<open>"Pieter: 100 km"\<close> the result is the record \<^verbatim>\<open>{Pieter, 100}\<close>. On \<^verbatim>\<open>"Jan 150"\<close> and on
  \<^verbatim>\<open>"Anna - 75"\<close> it is not the documented one: the class of the name group holds the
  digits, the space and the hyphen, so the greedy name takes all of the line but its
  last digit, and the results are \<^verbatim>\<open>{"Jan 15", 0}\<close> and \<^verbatim>\<open>{"Anna - 7", 5}\<close>.
\<close>

theorem parse_primary_examples:
  "parseLinesToPairs (str ''Jan 150'') = Inr [\<lparr>name = str ''Jan 15'', km = Fin 0\<rparr>] \<and>
   parseLinesToPairs (str ''Pieter: 100 km'') = Inr [\<lparr>name = str ''Pieter'', km = Fin 100\<rparr>] \<and>
   parseLinesToPairs (str ''Anna - 75'') = Inr [\<lparr>name = str ''Anna - 7'', km = Fin 5\<rparr>]"
proof -
  have a: "parseLinesToPairs (str ''Jan 150'') = Inr [\<lparr>name = str ''Jan 15'', km = Fin 0\<rparr>]"
    by (simp add: parse_eval num_eval)
  have b: "parseLinesToPairs (str ''Pieter: 100 km'') = Inr [\<lparr>name = str ''Pieter'', km = Fin 100\<rparr>]"
    by (simp add: parse_eval num_eval)
  have c: "parseLinesToPairs (str ''Anna - 75'') = Inr [\<lparr>name = str ''Anna - 7'', km = Fin 5\<rparr>]"
    by (simp add: parse_eval num_eval)
  from a b c show ?thesis by blast
qed

text \<open>
  C2. The comment of the fallback gives \<^verbatim>\<open>"Jan 150 Pieter 100"\<close> as the line whose tokens
  are paired. The line never reaches the fallback: the pattern matches it, the name
  taking everything but the last digit, and the result is the single record
  \<^verbatim>\<open>{"Jan 150 Pieter 10", 0}\<close>.
\<close>

theorem parse_token_example:
  "parseLinesToPairs (str ''Jan 150 Pieter 100'') =
     Inr [\<lparr>name = str ''Jan 150 Pieter 10'', km = Fin 0\<rparr>]"
  by (simp add: parse_eval num_eval)

section \<open>The quantifier\<close>

lemma rep_zero: "rep p lo (Some 0) acc s k = k acc s"
  by (subst rep.simps) simp

lemma rep_Some:
  "rep p lo hi acc s k = Some z \<Longrightarrow> boundOk hi lo \<Longrightarrow>
   \<exists>n. lo \<le> n \<and> n \<le> length s \<and> boundOk hi n \<and> list_all p (take n s) \<and>
       k (acc @ take n s) (drop n s) = Some z"
proof (induction s arbitrary: lo hi acc)
  case Nil
  then show ?case
    by (auto simp: rep.simps [of p lo hi acc "[]"] boundOk_def split: if_splits)
next
  case (Cons c t)
  show ?case
  proof (cases "hi = Some 0")
    case True
    with Cons.prems show ?thesis
      by (auto simp: rep_zero boundOk_def intro!: exI [of _ 0])
  next
    case False
    let ?more = "if p c then rep p (lo - 1) (map_option (\<lambda>n. n - 1) hi) (acc @ [c]) t k else None"
    from False have unf: "rep p lo hi acc (c # t) k =
        (case ?more of Some z \<Rightarrow> Some z | None \<Rightarrow> if lo = 0 then k acc (c # t) else None)"
      by (simp add: rep.simps [of p lo hi acc "c # t"])
    show ?thesis
    proof (cases ?more)
      case None
      with unf Cons.prems have "lo = 0" "k acc (c # t) = Some z"
        by (auto split: if_splits)
      then show ?thesis
        by (auto simp: boundOk_def intro!: exI [of _ 0] split: option.splits)
    next
      case (Some y)
      with unf Cons.prems have yz: "y = z" by simp
      from Some have pc: "p c" and r: "rep p (lo - 1) (map_option (\<lambda>n. n - 1) hi) (acc @ [c]) t k = Some z"
        using yz by (auto split: if_splits)
      have w: "boundOk (map_option (\<lambda>n. n - 1) hi) (lo - 1)"
        using Cons.prems(2) by (auto simp: boundOk_def split: option.splits)
      from Cons.IH [OF r w] obtain n where n: "lo - 1 \<le> n" "n \<le> length t"
        "boundOk (map_option (\<lambda>n. n - 1) hi) n" "list_all p (take n t)"
        "k ((acc @ [c]) @ take n t) (drop n t) = Some z" by blast
      have "boundOk hi (Suc n)"
        using n(3) False by (auto simp: boundOk_def split: option.splits)
      with n pc show ?thesis
        by (intro exI [of _ "Suc n"]) auto
    qed
  qed
qed


lemma rep_SomeE:
  assumes "rep p lo hi [] s k = Some z" "boundOk hi lo"
  obtains n where "lo \<le> n" "n \<le> length s" "boundOk hi n" "list_all p (take n s)"
    "k (take n s) (drop n s) = Some z"
  using rep_Some [OF assms] by auto

lemma boundOk_simps [simp]: "boundOk None n" "boundOk (Some h) n \<longleftrightarrow> n \<le> h"
  by (simp_all add: boundOk_def)


section \<open>The token loop and the digits\<close>

lemma tokenLoop_eq: "tokenLoop tokens i pairs = Inr (pairs @ tokenPairs (drop i tokens))"
proof (induction tokens i pairs rule: tokenLoop.induct)
  case (1 tokens i pairs)
  show ?case
  proof (cases "int i < int (length tokens) - 1")
    case True
    then have i1: "Suc i < length tokens" by simp
    then have i0: "i < length tokens" by simp
    have d: "drop i tokens = tokens ! i # tokens ! Suc i # drop (i + 2) tokens"
      using i0 i1 by (simp add: Cons_nth_drop_Suc)
    have f: "list_all isDigit (filter isDigit (tokens ! Suc i))"
      by (simp add: list_all_iff)
    let ?km = "filter isDigit (tokens ! Suc i)"
    let ?pairs = "if ?km \<noteq> [] \<and> list_all isDigit ?km
        then pairs @ [\<lparr>name = tokens ! i, km = parseInt ?km\<rparr>] else pairs"
    have ih: "tokenLoop tokens (i + 2) ?pairs = Inr (?pairs @ tokenPairs (drop (i + 2) tokens))"
      using "1.IH" [OF True, of "tokens ! i" "tokens ! Suc i" ?km] i0 i1
      by (simp add: nthOpt_def)
    have "tokenLoop tokens i pairs = tokenLoop tokens (i + 2) ?pairs"
      using True i0 i1 by (subst tokenLoop.simps) (simp add: nthOpt_def Let_def)
    then show ?thesis
      using ih d f by simp
  next
    case False
    then have "length (drop i tokens) \<le> 1" by simp
    then have "tokenPairs (drop i tokens) = []"
      by (cases "drop i tokens" rule: tokenPairs.cases) auto
    moreover have "tokenLoop tokens i pairs = Inr pairs"
      using False by (subst tokenLoop.simps) simp
    ultimately show ?thesis by simp
  qed
qed

lemma digit_not_space: "isDigit c \<Longrightarrow> \<not> isSpace c"
  by (auto simp: isDigit_def isSpace_def)

lemma parseInt_digits:
  assumes "ds \<noteq> []" "list_all isDigit ds"
  shows "parseInt ds = (if digitsValue ds = 0 then Fin 0 else round64 (of_nat (digitsValue ds)))"
proof -
  from assms obtain c t where ds: "ds = c # t" and c: "isDigit c"
    by (cases ds) auto
  have s: "dropWhile isSpace ds = ds" using ds c by (simp add: digit_not_space)
  have h: "hd ds \<noteq> 45" "hd ds \<noteq> 43" using ds c by (auto simp: isDigit_def)
  have t: "takeWhile isDigit ds = ds" using assms(2) by (simp add: list_all_iff)
  show ?thesis
    using assms(1) h by (simp add: parseInt_def Let_def s t)
qed

lemma digitsValue_snoc: "digitsValue (ds @ [c]) = 10 * digitsValue ds + (c - 48)"
  by (simp add: digitsValue_def)

lemma digitsValue_less: "list_all isDigit ds \<Longrightarrow> digitsValue ds < 10 ^ length ds"
proof (induction ds rule: rev_induct)
  case Nil
  show ?case by (simp add: digitsValue_def)
next
  case (snoc c ds)
  then have "digitsValue ds < 10 ^ length ds" and "c - 48 \<le> 9"
    by (auto simp: isDigit_def)
  then show ?case by (simp add: digitsValue_snoc)
qed

lemma parseInt_small:
  assumes "ds \<noteq> []" "list_all isDigit ds" "length ds \<le> 6"
  shows "parseInt ds = Fin (of_nat (digitsValue ds))"
proof -
  have "digitsValue ds < 10 ^ length ds" by (rule digitsValue_less [OF assms(2)])
  also have "(10::nat) ^ length ds \<le> 10 ^ 6" using assms(3) by (intro power_increasing) auto
  finally have "digitsValue ds \<le> 2 ^ 53" by simp
  then have "round64 (of_nat (digitsValue ds)) = Fin (of_nat (digitsValue ds))"
    by (rule round64_of_nat)
  then show ?thesis by (simp add: parseInt_digits [OF assms(1,2)])
qed

lemma letter_Some: "letter u s k = Some z \<Longrightarrow> \<exists>c r. s = c # r \<and> (c = u \<or> c = u + 32) \<and> k r = Some z"
  by (auto simp: letter_def split: list.splits if_splits)

lemma unit_const:
  assumes "unit s (\<lambda>r. Some c) = Some z"
  shows "z = c"
proof (cases "rep isSpace 0 None [] s (\<lambda>w r0. letter 75 r0 (\<lambda>r1. letter 77 r1 (\<lambda>r. Some c)))")
  case None
  with assms show ?thesis by (simp add: unit_def)
next
  case (Some y)
  with assms have yz: "y = z" by (simp add: unit_def)
  from rep_Some [OF Some] obtain n where
    h1: "letter 75 (drop n s) (\<lambda>r1. letter 77 r1 (\<lambda>r. Some c)) = Some y"
    by (auto simp: boundOk_def)
  from letter_Some [OF h1] obtain r where h2: "letter 77 r (\<lambda>r. Some c) = Some y"
    by blast
  from letter_Some [OF h2] have "y = c" by blast
  with yz show ?thesis by simp
qed


section \<open>The pattern against its description\<close>

lemma matchHere_Some:
  assumes "matchHere s = Some (g1, g2)"
  shows "prefixMatch s g1 g2"
proof -
  have k0: "rep isNameChar 2 (Some 30) [] s (\<lambda>g1 r1.
       rep isSpace 0 None [] r1 (\<lambda>w1 r2.
       rep isSep 0 (Some 1) [] r2 (\<lambda>sp r3.
       rep isSpace 0 None [] r3 (\<lambda>w2 r4.
       rep isDigit 1 (Some 6) [] r4 (\<lambda>g2 r5.
       unit r5 (\<lambda>r6. Some (g1, g2))))))) = Some (g1, g2)"
    using assms by (simp only: matchHere_def)
  have b30: "boundOk (Some 30) 2" and b1: "boundOk (Some 1) 0" and b6: "boundOk (Some 6) 1"
    and bn: "boundOk None 0" by simp_all
  from k0 b30 obtain n1 where n1: "2 \<le> n1" "n1 \<le> length s" "boundOk (Some 30) n1"
      "list_all isNameChar (take n1 s)"
    and k1: "rep isSpace 0 None [] (drop n1 s) (\<lambda>w1 r2.
       rep isSep 0 (Some 1) [] r2 (\<lambda>sp r3.
       rep isSpace 0 None [] r3 (\<lambda>w2 r4.
       rep isDigit 1 (Some 6) [] r4 (\<lambda>g2 r5.
       unit r5 (\<lambda>r6. Some (take n1 s, g2)))))) = Some (g1, g2)"
    by (rule rep_SomeE)
  let ?s1 = "drop n1 s"
  from k1 bn obtain n2 where n2: "0 \<le> n2" "n2 \<le> length ?s1" "boundOk None n2"
      "list_all isSpace (take n2 ?s1)"
    and k2: "rep isSep 0 (Some 1) [] (drop n2 ?s1) (\<lambda>sp r3.
       rep isSpace 0 None [] r3 (\<lambda>w2 r4.
       rep isDigit 1 (Some 6) [] r4 (\<lambda>g2 r5.
       unit r5 (\<lambda>r6. Some (take n1 s, g2))))) = Some (g1, g2)"
    by (rule rep_SomeE)
  let ?s2 = "drop n2 ?s1"
  from k2 b1 obtain n3 where n3: "0 \<le> n3" "n3 \<le> length ?s2" "boundOk (Some 1) n3"
      "list_all isSep (take n3 ?s2)"
    and k3: "rep isSpace 0 None [] (drop n3 ?s2) (\<lambda>w2 r4.
       rep isDigit 1 (Some 6) [] r4 (\<lambda>g2 r5.
       unit r5 (\<lambda>r6. Some (take n1 s, g2)))) = Some (g1, g2)"
    by (rule rep_SomeE)
  let ?s3 = "drop n3 ?s2"
  from k3 bn obtain n4 where n4: "0 \<le> n4" "n4 \<le> length ?s3" "boundOk None n4"
      "list_all isSpace (take n4 ?s3)"
    and k4: "rep isDigit 1 (Some 6) [] (drop n4 ?s3) (\<lambda>g2 r5.
       unit r5 (\<lambda>r6. Some (take n1 s, g2))) = Some (g1, g2)"
    by (rule rep_SomeE)
  let ?s4 = "drop n4 ?s3"
  from k4 b6 obtain n5 where n5: "1 \<le> n5" "n5 \<le> length ?s4" "boundOk (Some 6) n5"
      "list_all isDigit (take n5 ?s4)"
    and k5: "unit (drop n5 ?s4) (\<lambda>r6. Some (take n1 s, take n5 ?s4)) = Some (g1, g2)"
    by (rule rep_SomeE)
  from unit_const [OF k5] have g: "g1 = take n1 s" "g2 = take n5 ?s4" by simp_all
  have dec: "s = take n1 s @ take n2 ?s1 @ take n3 ?s2 @ take n4 ?s3 @ take n5 ?s4 @ drop n5 ?s4"
    by (simp only: append_take_drop_id)
  have l1: "length (take n1 s) = n1" using n1(2) by simp
  have l3: "length (take n3 ?s2) = n3" using n3(2) by (simp only: length_take min_absorb2)
  have l5: "length (take n5 ?s4) = n5" using n5(2) by (simp only: length_take min_absorb2)
  show ?thesis
    unfolding prefixMatch_def g
  proof (intro exI conjI)
    show "s = take n1 s @ take n2 ?s1 @ take n3 ?s2 @ take n4 ?s3 @ take n5 ?s4 @ drop n5 ?s4"
      by (rule dec)
    show "2 \<le> length (take n1 s)" "length (take n1 s) \<le> 30" using n1 l1 by simp_all
    show "list_all isNameChar (take n1 s)" by (rule n1(4))
    show "list_all isSpace (take n2 ?s1)" by (rule n2(4))
    show "length (take n3 ?s2) \<le> 1" using n3(3) l3 by simp
    show "list_all isSep (take n3 ?s2)" by (rule n3(4))
    show "list_all isSpace (take n4 ?s3)" by (rule n4(4))
    show "1 \<le> length (take n5 ?s4)" "length (take n5 ?s4) \<le> 6" using n5 l5 by simp_all
    show "list_all isDigit (take n5 ?s4)" by (rule n5(4))
  qed
qed


lemma nameKmMatch_Some:
  "nameKmMatch s = Some m \<Longrightarrow> \<exists>pre rest. s = pre @ rest \<and> matchHere rest = Some m"
proof (induction s)
  case Nil
  then show ?case by (auto simp: nameKmMatch.simps [of "[]"] split: option.splits)
next
  case (Cons c t)
  show ?case
  proof (cases "matchHere (c # t)")
    case None
    with Cons.prems have "nameKmMatch t = Some m"
      by (simp add: nameKmMatch.simps [of "c # t"])
    from Cons.IH [OF this] obtain pre rest where "t = pre @ rest" "matchHere rest = Some m"
      by blast
    then show ?thesis by (intro exI [of _ "c # pre"] exI [of _ rest]) simp
  next
    case (Some y)
    with Cons.prems have "y = m" by (simp add: nameKmMatch.simps [of "c # t"])
    with Some show ?thesis by (intro exI [of _ "[]"] exI [of _ "c # t"]) simp
  qed
qed


lemma nameKmMatch_matchesAs:
  assumes "nameKmMatch line = Some (g1, g2)"
  shows "\<exists>pre u post. line = pre @ u @ post \<and> matchesAs u g1 g2"
proof -
  from nameKmMatch_Some [OF assms] obtain pre rest where l: "line = pre @ rest"
    and m: "matchHere rest = Some (g1, g2)" by blast
  from matchHere_Some [OF m] obtain w1 sp w2 post where s: "rest = g1 @ w1 @ sp @ w2 @ g2 @ post"
    and c: "2 \<le> length g1" "length g1 \<le> 30" "list_all isNameChar g1"
      "list_all isSpace w1" "length sp \<le> 1" "list_all isSep sp" "list_all isSpace w2"
      "1 \<le> length g2" "length g2 \<le> 6" "list_all isDigit g2"
    by (auto simp: prefixMatch_def)
  have "matchesAs (g1 @ w1 @ sp @ w2 @ g2) g1 g2"
    unfolding matchesAs_def using c
    by (intro exI [of _ w1] exI [of _ sp] exI [of _ w2] exI [of _ "[]"]) (simp add: isUnit_def)
  then show ?thesis
    using l s by (intro exI [of _ pre] exI [of _ "g1 @ w1 @ sp @ w2 @ g2"] exI [of _ post]) simp
qed


section \<open>The parser line by line\<close>

lemma nameKmMatch_digits:
  assumes "nameKmMatch line = Some (g1, g2)"
  shows "g2 \<noteq> [] \<and> list_all isDigit g2 \<and> length g2 \<le> 6"
proof -
  from nameKmMatch_matchesAs [OF assms] obtain u where "matchesAs u g1 g2" by blast
  then show ?thesis by (auto simp: matchesAs_def)
qed

lemma parseLine_eq: "parseLine line pairs = Inr (pairs @ lineRecords line)"
proof (cases "nameKmMatch line")
  case None
  then show ?thesis by (simp add: parseLine_def lineRecords_def tokenLoop_eq)
next
  case (Some m)
  obtain g1 g2 where m: "m = (g1, g2)" by (cases m)
  from nameKmMatch_digits [OF Some [unfolded m]]
  have "parseInt g2 = Fin (of_nat (digitsValue g2))" by (intro parseInt_small) simp_all
  then show ?thesis
    using Some m by (simp add: parseLine_def lineRecords_def isNaN_def)
qed

lemma parseLoop_eq: "parseLoop ls pairs = Inr (pairs @ concat (map lineRecords ls))"
  by (induction ls arbitrary: pairs) (simp_all add: parseLine_eq)

lemma parse_eq: "parseLinesToPairs text = Inr (concat (map lineRecords (textLines text)))"
  by (simp add: parseLinesToPairs_def parseLoop_eq)

text \<open>
  C9. \<^verbatim>\<open>parseLinesToPairs\<close> returns a list of records on every string: no array is read
  outside its bounds and no loop runs on. The empty string gives the empty list, and so
  does every text none of whose lines has a match of the primary pattern or a token pair
  with a digit in its second token.
\<close>

theorem parse_total:
  "(\<exists>ps. parseLinesToPairs text = Inr ps) \<and>
   parseLinesToPairs [] = Inr [] \<and>
   ((\<forall>line \<in> set (textLines text). nameKmMatch line = None \<and> tokenPairs (splitSpaces line) = [])
      \<longrightarrow> parseLinesToPairs text = Inr [])"
proof (intro conjI impI)
  show "\<exists>ps. parseLinesToPairs text = Inr ps" by (simp add: parse_eq)
  show "parseLinesToPairs [] = Inr []"
    by (simp add: parse_eq textLines_def trim_def)
  assume "\<forall>line \<in> set (textLines text). nameKmMatch line = None \<and> tokenPairs (splitSpaces line) = []"
  then have "\<forall>line \<in> set (textLines text). lineRecords line = []"
    by (simp add: lineRecords_def)
  then show "parseLinesToPairs text = Inr []"
    by (simp add: parse_eq)
qed

theorem parse_total_witness:
  "textLines (str ''hello'') = [str ''hello''] \<and>
   nameKmMatch (str ''hello'') = None \<and>
   tokenPairs (splitSpaces (str ''hello'')) = [] \<and>
   parseLinesToPairs (str ''hello'') = Inr []"
proof -
  have l: "textLines (str ''hello'') = [str ''hello'']"
    by (simp add: parse_eval)
  have m: "nameKmMatch (str ''hello'') = None"
    by (simp add: parse_eval)
  have t: "tokenPairs (splitSpaces (str ''hello'')) = []"
    by (simp add: parse_eval)
  have "parseLinesToPairs (str ''hello'') = Inr []"
    using parse_total [of "str ''hello''"] l m t by simp
  with l m t show ?thesis by simp
qed




section \<open>Rounded values are doubles\<close>

lemma two_powi_add: "(2::rat) powi (a + b) = 2 powi a * 2 powi b"
  by (simp add: power_int_add)

lemma two_powi_53: "(2::rat) powi (E + 1) = of_int (2 ^ 53) * 2 powi (E - 52)"
proof -
  have "E + 1 = 53 + (E - 52)" by simp
  then have "(2::rat) powi (E + 1) = 2 powi 53 * 2 powi (E - 52)"
    by (simp only: two_powi_add)
  then show ?thesis by simp
qed

lemma roundEven_bounds: "\<lfloor>r\<rfloor> \<le> roundEven r \<and> roundEven r \<le> \<lfloor>r\<rfloor> + 1"
  by (simp add: roundEven_def Let_def)

lemma roundEven_nonneg:
  assumes "0 \<le> r"
  shows "0 \<le> roundEven r"
proof -
  have "0 \<le> \<lfloor>r\<rfloor>" using assms by simp
  with roundEven_bounds [of r] show ?thesis by linarith
qed

lemma roundEven_le_int:
  assumes "r \<le> of_int n"
  shows "roundEven r \<le> n"
proof (cases "r = of_int n")
  case True
  then show ?thesis by (simp add: roundEven_of_int)
next
  case False
  with assms have "r < of_int n" by simp
  then have "\<lfloor>r\<rfloor> < n" by (simp add: floor_less_iff)
  with roundEven_bounds [of r] show ?thesis by linarith
qed

lemma isDouble_uminus: "isDouble r \<Longrightarrow> isDouble (- r)"
  unfolding isDouble_def
  by (elim exE conjE, rule_tac x = "- m" in exI, rule_tac x = x in exI) simp

lemma isDouble_zero: "isDouble 0"
  unfolding isDouble_def by (intro exI [of _ 0] exI [of _ 0]) simp

lemma roundPos_isDouble:
  assumes "0 < r" "roundPos r = Fin v"
  shows "isDouble v \<and> 0 \<le> v"
proof -
  define E where "E = max (ilog2 r) (- 1022)"
  define q :: rat where "q = 2 powi (E - 52)"
  define m where "m = roundEven (r / q)"
  have q0: "0 < q" by (simp add: q_def two_powi_pos)
  from assms(2) have v: "v = of_int m * q" and nov: "\<not> 1024 \<le> ilog2 v"
    by (auto simp: roundPos_def Let_def E_def q_def m_def split: if_splits)
  have m0: "0 \<le> m" unfolding m_def using assms(1) q0 by (intro roundEven_nonneg) simp
  have "r < 2 powi (ilog2 r + 1)" using ilog2_bounds [OF assms(1)] by simp
  also have "\<dots> \<le> 2 powi (E + 1)" by (intro power_int_increasing) (simp_all add: E_def)
  also have "\<dots> = of_int (2 ^ 53) * q"
    unfolding q_def by (rule two_powi_53)
  finally have "r / q < of_int (2 ^ 53)" using q0 by (simp add: pos_divide_less_eq)
  then have m53: "m \<le> 2 ^ 53" unfolding m_def by (intro roundEven_le_int) simp
  have E: "- 1022 \<le> E" by (simp add: E_def)
  show ?thesis
  proof (cases "m = 0")
    case True
    then show ?thesis using v isDouble_zero by simp
  next
    case False
    with m0 have mp: "0 < m" by simp
    have il: "ilog2 v = E - 52 + bitlen m - 1"
      unfolding v q_def by (rule ilog2_dyadic [OF mp])
    have v0: "0 \<le> v" using m0 q0 by (simp add: v)
    show ?thesis
    proof (cases "m = 2 ^ 53")
      case True
      have b: "bitlen (2 ^ 53) = 54" by (simp add: compute_bitlen)
      have "v = of_int 1 * 2 powi (E + 1)"
        unfolding v q_def True using two_powi_53 [of E] by simp
      moreover have "E + 1 + bitlen 1 \<le> 1024"
        using nov il True b by (simp add: compute_bitlen)
      ultimately have "isDouble v"
        unfolding isDouble_def using E by (intro exI [of _ 1] exI [of _ "E + 1"]) simp
      with v0 show ?thesis by simp
    next
      case False
      with m53 have "m < 2 ^ 53" by simp
      moreover have "E - 52 + bitlen m \<le> 1024" using nov il by simp
      ultimately have "isDouble v"
        unfolding isDouble_def using E mp v q_def
        by (intro exI [of _ m] exI [of _ "E - 52"]) simp
      with v0 show ?thesis by simp
    qed
  qed
qed

lemma roundPos_cases: "roundPos r = PInf \<or> (\<exists>v. roundPos r = Fin v)"
  by (simp add: roundPos_def Let_def)

lemma round64_isDouble:
  assumes "round64 r = Fin v"
  shows "isDouble v"
proof -
  consider "r = 0" | "0 < r" | "r < 0" by linarith
  then show ?thesis
  proof cases
    case 1
    with assms show ?thesis by (simp add: round64_def isDouble_zero)
  next
    case 2
    with assms have "roundPos r = Fin v" by (simp add: round64_def)
    from roundPos_isDouble [OF 2 this] show ?thesis by simp
  next
    case 3
    then have p: "0 < - r" by simp
    from 3 assms have f: "fneg (roundPos (- r)) = Fin v" by (simp add: round64_def)
    from roundPos_cases [of "- r"] show ?thesis
    proof
      assume "roundPos (- r) = PInf"
      with f show ?thesis by simp
    next
      assume "\<exists>w. roundPos (- r) = Fin w"
      then obtain w where w: "roundPos (- r) = Fin w" by blast
      from roundPos_isDouble [OF p w] have "isDouble w" by simp
      moreover from f w have "v = - w" by (simp split: if_splits)
      ultimately show ?thesis by (simp add: isDouble_uminus)
    qed
  qed
qed

section \<open>Differences of amounts\<close>

lemma genuine_round64: "genuine (round64 r)"
  by (cases "round64 r") (simp_all add: round64_isDouble)

lemma genuine_fneg: "genuine x \<Longrightarrow> genuine (fneg x)"
  by (cases x) (simp_all add: isDouble_uminus isDouble_zero)

lemma genuine_fdiv: "genuine (fdiv x y)"
  by (simp add: fdiv_def withSign_def genuine_round64 isDouble_zero)

lemma genuine_round2: "genuine (round2 x)"
  by (simp add: round2_def genuine_fdiv)

lemma round2_zero: "isZero z \<Longrightarrow> round2 z = Fin 0"
proof (cases z)
  case (Fin r)
  assume "isZero z"
  with Fin have "z = Fin 0" by simp
  then show ?thesis by (simp add: num_eval)
next
  case NegZero
  then show ?thesis by (simp add: num_eval)
qed simp_all

lemma mathAbs_fneg: "mathAbs (fneg x) = mathAbs x"
  by (cases x) simp_all

lemma mathAbs_roundPos: "0 < r \<Longrightarrow> mathAbs (roundPos r) = roundPos r"
  using roundPos_cases [of r] roundPos_isDouble [of r] by auto

lemma mathAbs_round64: "mathAbs (round64 d) = round64 \<bar>d\<bar>"
  by (simp add: round64_def mathAbs_fneg mathAbs_roundPos)

text \<open>The value of a finite number, the zeros being 0.\<close>

lemma fsub_finite:
  assumes "isFinite x" "isFinite y" "genuine x" "genuine y" "valueOf x \<noteq> valueOf y"
  shows "fsub x y = round64 (valueOf x - valueOf y)"
proof -
  have ex: "\<And>r. isDouble r \<Longrightarrow> round64 r = Fin r" by (rule round64_exact)
  from assms show ?thesis
    by (cases x; cases y) (auto simp: fsub_def fadd_def ex isDouble_uminus)
qed

lemma fsub_equal:
  assumes "isFinite x" "isFinite y" "valueOf x = valueOf y"
  shows "isZero (fsub x y)"
  using assms by (cases x; cases y) (auto simp: fsub_def fadd_def round64_def)

lemma gt_finite: "isFinite x \<Longrightarrow> isFinite y \<Longrightarrow> gt x y \<longleftrightarrow> valueOf y < valueOf x"
  by (cases x; cases y) (auto simp: gt_def)

lemma mathAbs_zero: "isZero z \<Longrightarrow> mathAbs z = Fin 0"
  by (cases z) simp_all

lemma diff_cases:
  assumes "isFinite x" "isFinite y" "genuine x" "genuine y"
  shows "(valueOf x = valueOf y \<and> round2 (mathAbs (fsub x y)) = Fin 0) \<or>
         (gt x y \<and> round2 (mathAbs (fsub x y)) = round2 (fsub x y)) \<or>
         (gt y x \<and> \<not> gt x y \<and> round2 (mathAbs (fsub x y)) = round2 (fsub y x))"
proof -
  consider "valueOf x = valueOf y" | "valueOf y < valueOf x" | "valueOf x < valueOf y" by linarith
  then show ?thesis
  proof cases
    case 1
    then have "mathAbs (fsub x y) = Fin 0"
      using assms by (intro mathAbs_zero fsub_equal)
    then show ?thesis using 1 by (simp add: round2_zero)
  next
    case 2
    then have "fsub x y = round64 (valueOf x - valueOf y)"
      using assms by (intro fsub_finite) simp_all
    then have "mathAbs (fsub x y) = fsub x y"
      using 2 by (simp add: mathAbs_round64)
    then show ?thesis using 2 assms by (simp add: gt_finite)
  next
    case 3
    then have a: "fsub x y = round64 (valueOf x - valueOf y)"
      and b: "fsub y x = round64 (valueOf y - valueOf x)"
      using assms by (simp_all add: fsub_finite)
    have "\<bar>valueOf x - valueOf y\<bar> = valueOf y - valueOf x" using 3 by simp
    then have "mathAbs (fsub x y) = fsub y x"
      using a b by (simp add: mathAbs_round64)
    then show ?thesis using 3 assms by (simp add: gt_finite)
  qed
qed

text \<open>The same when an amount is infinite, as long as the difference is a number.\<close>

lemma diff_cases_number:
  assumes "genuine x" "genuine y" "fsub x y \<noteq> NaN"
  shows "(round2 (mathAbs (fsub x y)) = Fin 0) \<or>
         (gt x y \<and> round2 (mathAbs (fsub x y)) = round2 (fsub x y)) \<or>
         (gt y x \<and> \<not> gt x y \<and> round2 (mathAbs (fsub x y)) = round2 (fsub y x))"
proof (cases "isFinite x \<and> isFinite y")
  case True
  with diff_cases [of x y] assms(1,2) show ?thesis by blast
next
  case False
  then show ?thesis using assms(3)
    by (cases x; cases y) (auto simp: fsub_def fadd_def gt_def)
qed

lemma fmul_commute: "fmul x y = fmul y x"
proof -
  have "(isNeg x \<noteq> isNeg y) = (isNeg y \<noteq> isNeg x)" by auto
  then show ?thesis
    unfolding fmul_def by (simp add: mult.commute disj_commute)
qed

lemma fadd_Fin: "fadd (Fin a) (Fin b) = round64 (a + b)"
  by (simp add: fadd_def)

lemma strictEq_not_gt: "strictEq x y \<Longrightarrow> \<not> gt x y"
  by (simp add: strictEq_def gt_def)

lemma summary_other:
  assumes "\<not> (length rows = 2 \<and> gt (totalKm rows) (Fin 0))"
  shows "summary rows amount =
    (if strictEq (totalKm rows) (Fin 0) then sentence AwaitInput else sentence GenericAdvice)"
  using assms unfolding summary_def by (simp only: if_False sentence.simps)

text \<open>
  C5. Whenever the total distance is zero the summary is the sentence of \<open>AwaitInput\<close>,
  whatever the number of rows, two rows of distance zero included; whenever it is
  positive and the rows are not two, the summary is the sentence of \<open>GenericAdvice\<close>; and
  outside the case of two rows with a positive total the summary is one of these two,
  never a payment or "no payment".
\<close>

theorem settlement_cases:
  "(strictEq (totalKm rows) (Fin 0) \<longrightarrow> summary rows amount = sentence AwaitInput) \<and>
   (gt (totalKm rows) (Fin 0) \<and> length rows \<noteq> 2 \<longrightarrow> summary rows amount = sentence GenericAdvice) \<and>
   (\<not> (length rows = 2 \<and> gt (totalKm rows) (Fin 0)) \<longrightarrow>
      summary rows amount = sentence AwaitInput \<or> summary rows amount = sentence GenericAdvice)"
proof (intro conjI impI)
  assume z: "strictEq (totalKm rows) (Fin 0)"
  then have "\<not> (length rows = 2 \<and> gt (totalKm rows) (Fin 0))"
    by (simp add: strictEq_not_gt)
  from summary_other [OF this] z show "summary rows amount = sentence AwaitInput" by simp
next
  assume g: "gt (totalKm rows) (Fin 0) \<and> length rows \<noteq> 2"
  then have n: "\<not> (length rows = 2 \<and> gt (totalKm rows) (Fin 0))" by simp
  have "\<not> strictEq (totalKm rows) (Fin 0)" using g strictEq_not_gt by blast
  with summary_other [OF n] show "summary rows amount = sentence GenericAdvice" by simp
next
  assume "\<not> (length rows = 2 \<and> gt (totalKm rows) (Fin 0))"
  from summary_other [OF this]
  show "summary rows amount = sentence AwaitInput \<or> summary rows amount = sentence GenericAdvice"
    by simp
qed

theorem settlement_cases_witness:
  "strictEq (totalKm rowsZero) (Fin 0) \<and>
   summary rowsZero (Fin 50) = sentence AwaitInput \<and>
   gt (totalKm rowsThree) (Fin 0) \<and> length rowsThree \<noteq> 2 \<and>
   summary rowsThree (Fin 50) = sentence GenericAdvice"
proof -
  have t0: "totalKm rowsZero = Fin 0" by (simp add: rowsZero_def totalKm_def num_eval)
  have t3: "totalKm rowsThree = Fin 3" by (simp add: rowsThree_def totalKm_def num_eval)
  have z: "strictEq (totalKm rowsZero) (Fin 0)" by (simp add: t0 strictEq_def)
  have g: "gt (totalKm rowsThree) (Fin 0)" by (simp add: t3 gt_def)
  have l: "length rowsThree \<noteq> 2" by (simp add: rowsThree_def)
  from settlement_cases [of rowsZero "Fin 50"] z
  have a: "summary rowsZero (Fin 50) = sentence AwaitInput" by blast
  from settlement_cases [of rowsThree "Fin 50"] g l
  have b: "summary rowsThree (Fin 50) = sentence GenericAdvice" by blast
  from z a g l b show ?thesis by blast
qed

section \<open>The summary text\<close>

lemma joinLines_Cons: "ls \<noteq> [] \<Longrightarrow> joinLines (l # ls) = l @ [10] @ joinLines ls"
  by (cases ls) simp_all

lemma joinLines_shares:
  "joinLines (map shareLine cs @ [[], t]) = concat (map (\<lambda>c. shareLine c @ [10]) cs) @ [10] @ t"
  by (induction cs) (simp_all add: joinLines_Cons)

lemma foldl_shares:
  "foldl (\<lambda>text c. text @ shareLine c @ [10]) init cs = init @ concat (map (\<lambda>c. shareLine c @ [10]) cs)"
  by (induction cs arbitrary: init) simp_all

lemma tikkieText_layout: "tikkieText amount cs (sentence d) = summaryLayout amount cs d"
proof -
  have f: "(\<lambda>text c. text @ name c @ str '': '' @ numberToString (km c) @ str '' km '' @ dash
                        @ str '' '' @ numberToString (pct c) @ str ''% '' @ dash @ str '' '' @ euro
                        @ numberToString (euros c) @ [10])
         = (\<lambda>text c. text @ shareLine c @ [10])"
    by (simp add: shareLine_def)
  show ?thesis
    unfolding tikkieText_def summaryLayout_def f foldl_shares
    by (simp add: joinLines_Cons joinLines_shares)
qed

lemma summary_sentence: "\<exists>d. summary rows amount = sentence d"
proof (cases "length rows = 2 \<and> gt (totalKm rows) (Fin 0)")
  case False
  from summary_other [OF this] show ?thesis
    by (cases "strictEq (totalKm rows) (Fin 0)") (auto intro: exI [of _ AwaitInput] exI [of _ GenericAdvice])
next
  case True
  let ?a = "computed rows amount ! 0" and ?b = "computed rows amount ! 1"
  let ?diff = "round2 (mathAbs (fsub (euros ?a) (euros ?b)))"
  consider "strictEq ?diff (Fin 0)" | "\<not> strictEq ?diff (Fin 0)" "gt (euros ?a) (euros ?b)"
    | "\<not> strictEq ?diff (Fin 0)" "\<not> gt (euros ?a) (euros ?b)" by blast
  then show ?thesis
  proof cases
    case 1
    then have "summary rows amount = sentence NoPaymentNeeded"
      using True by (simp add: summary_def Let_def)
    then show ?thesis by blast
  next
    case 2
    then have "summary rows amount =
        sentence (PayFromTo (name ?b) (name ?a) (round2 (fsub (euros ?a) (euros ?b))))"
      using True by (simp add: summary_def Let_def)
    then show ?thesis by blast
  next
    case 3
    then have "summary rows amount =
        sentence (PayFromTo (name ?a) (name ?b) (round2 (fsub (euros ?b) (euros ?a))))"
      using True by (simp add: summary_def Let_def)
    then show ?thesis by blast
  qed
qed

text \<open>
  C8. For every amount, list of shares and directive the copied text has the fixed
  layout: the header with the amount, an empty line, one line per share in the order of
  the rows, an empty line, and \<^verbatim>\<open>Samenvatting: \<close> followed by the sentence of the directive;
  and the summary that \<^verbatim>\<open>copyTikkieText\<close> puts there is always one of the four sentences.
\<close>

theorem summary_layout:
  "tikkieText amount cs (sentence d) = summaryLayout amount cs d \<and>
   (\<exists>d'. summary rows amount = sentence d' \<and>
      copyTikkieText rows amount = summaryLayout amount (computed rows amount) d')"
proof
  show "tikkieText amount cs (sentence d) = summaryLayout amount cs d"
    by (rule tikkieText_layout)
  from summary_sentence [of rows amount] obtain d' where d': "summary rows amount = sentence d'"
    by blast
  then have "copyTikkieText rows amount = summaryLayout amount (computed rows amount) d'"
    by (simp add: copyTikkieText_def tikkieText_layout)
  with d' show "\<exists>d'. summary rows amount = sentence d' \<and>
      copyTikkieText rows amount = summaryLayout amount (computed rows amount) d'"
    by blast
qed

lemma isNatural_nat: "isNatural x \<Longrightarrow> \<exists>n. x = Fin (of_nat n)"
proof (cases x)
  case (Fin r)
  assume "isNatural x"
  with Fin have r: "0 \<le> r" "r = of_int \<lfloor>r\<rfloor>" by (simp_all add: isNatural_def)
  then have "0 \<le> \<lfloor>r\<rfloor>" by simp
  then have "(of_nat (nat \<lfloor>r\<rfloor>) :: rat) = of_int \<lfloor>r\<rfloor>" by simp
  with r Fin show ?thesis by (intro exI [of _ "nat \<lfloor>r\<rfloor>"]) simp
qed (simp_all add: isNatural_def)

lemma isNatural_nonneg: "isNatural x \<Longrightarrow> 0 \<le> valueOf x"
  by (cases x) (simp_all add: isNatural_def)

lemma orZero_natural: "isNatural x \<Longrightarrow> orZero x = x"
  by (cases x) (auto simp: isNatural_def orZero_def)

lemma foldl_total:
  assumes "\<forall>r \<in> set rows. isNatural (km r)" "of_nat a + kmSum rows \<le> 2 ^ 53"
  shows "foldl (\<lambda>s r. fadd s (orZero (km r))) (Fin (of_nat a)) rows = Fin (of_nat a + kmSum rows)"
  using assms
proof (induction rows arbitrary: a)
  case Nil
  then show ?case by (simp add: kmSum_def)
next
  case (Cons r rows)
  from Cons.prems(1) have "isNatural (km r)" by simp
  from isNatural_nat [OF this] obtain n where n: "km r = Fin (of_nat n)" by blast
  have nn: "\<forall>r \<in> set rows. 0 \<le> valueOf (km r)"
    using Cons.prems(1) by (simp add: isNatural_nonneg)
  then have s0: "0 \<le> kmSum rows" unfolding kmSum_def by (intro sum_list_nonneg) auto
  have ks: "kmSum (r # rows) = of_nat n + kmSum rows" by (simp add: kmSum_def n)
  have "(of_nat (a + n) :: rat) \<le> 2 ^ 53" using Cons.prems(2) s0 by (simp add: ks)
  then have "a + n \<le> 2 ^ 53"
    by (metis of_nat_le_iff of_nat_numeral of_nat_power)
  then have st: "fadd (Fin (of_nat a)) (orZero (km r)) = Fin (of_nat (a + n))"
    using round64_of_nat [of "a + n"] by (simp add: n orZero_natural isNatural_def fadd_Fin)
  have "foldl (\<lambda>s r. fadd s (orZero (km r))) (Fin (of_nat (a + n))) rows
      = Fin (of_nat (a + n) + kmSum rows)"
    using Cons.prems by (intro Cons.IH) (simp_all add: ks)
  then show ?case by (simp add: st ks)
qed

lemma totalKm_sum:
  assumes "\<forall>r \<in> set rows. isNatural (km r)" "kmSum rows \<le> 2 ^ 53"
  shows "totalKm rows = Fin (kmSum rows)"
  using foldl_total [of rows 0] assms by (simp add: totalKm_def)

lemma round2_times_zero:
  assumes "isFinite amount"
  shows "round2 (fmul amount (Fin 0)) = Fin 0"
proof -
  have "isZero (fmul amount (Fin 0))"
    using assms by (cases amount) (simp_all add: fmul_def withSign_def)
  then show ?thesis by (rule round2_zero)
qed

lemma round2_zero_times: "round2 (fmul (Fin 0) (Fin 100)) = Fin 0"
  by (simp add: num_eval)

lemma fdiv_zero_pos:
  assumes "isZero k" "gt T (Fin 0)"
  shows "isZero (fdiv k T)"
  using assms by (cases k; cases T) (auto simp: fdiv_def withSign_def gt_def)

lemma fmul_finite_zero:
  assumes "isFinite a" "isZero z"
  shows "isZero (fmul a z)"
  using assms by (cases a; cases z) (auto simp: fmul_def withSign_def)

text \<open>A distance of 0 or -0 gives the share 0 either way: \<^verbatim>\<open>|| 0\<close> is not seen.\<close>

lemma share_orZero:
  assumes "isFinite a" "k \<noteq> NaN" "gt T (Fin 0)"
  shows "round2 (fmul a (fdiv (orZero k) T)) = round2 (fmul a (fdiv k T))"
proof (cases "isZero k")
  case True
  have z: "isZero (Fin 0)" by simp
  have "round2 (fmul a (fdiv (Fin 0) T)) = Fin 0"
    by (intro round2_zero fmul_finite_zero fdiv_zero_pos assms z)
  moreover have "round2 (fmul a (fdiv k T)) = Fin 0"
    by (intro round2_zero fmul_finite_zero fdiv_zero_pos assms True)
  ultimately show ?thesis using True by (simp add: orZero_def)
next
  case False
  then show ?thesis using assms(2) by (simp add: orZero_def)
qed

lemma computed_rows:
  assumes "isFinite amount" "\<forall>r \<in> set rows. km r \<noteq> NaN"
  shows "computed rows amount =
      map (\<lambda>r. \<lparr>name = name r, km = km r,
                  pct = (if gt (totalKm rows) (Fin 0)
                         then round2 (fmul (Fin 100) (fdiv (km r) (totalKm rows))) else Fin 0),
                  euros = (if gt (totalKm rows) (Fin 0)
                           then round2 (fmul amount (fdiv (km r) (totalKm rows))) else Fin 0)\<rparr>) rows"
  unfolding computed_def Let_def
proof (rule map_cong [OF refl])
  fix r assume "r \<in> set rows"
  with assms(2) have n: "km r \<noteq> NaN" by simp
  have f: "isFinite (Fin 100)" by simp
  show "\<lparr>name = name r, km = km r,
        pct = round2 (fmul (if gt (totalKm rows) (Fin 0) then fdiv (orZero (km r)) (totalKm rows) else Fin 0) (Fin 100)),
        euros = round2 (fmul amount (if gt (totalKm rows) (Fin 0) then fdiv (orZero (km r)) (totalKm rows) else Fin 0))\<rparr>
      = \<lparr>name = name r, km = km r,
         pct = (if gt (totalKm rows) (Fin 0)
                then round2 (fmul (Fin 100) (fdiv (km r) (totalKm rows))) else Fin 0),
         euros = (if gt (totalKm rows) (Fin 0)
                  then round2 (fmul amount (fdiv (km r) (totalKm rows))) else Fin 0)\<rparr>"
  proof (cases "gt (totalKm rows) (Fin 0)")
    case True
    show ?thesis
      using share_orZero [OF assms(1) n True] share_orZero [OF f n True]
      by (simp add: True fmul_commute [of _ "Fin 100"])
  next
    case False
    show ?thesis
      using assms(1) by (simp add: False round2_times_zero round2_zero_times)
  qed
qed

lemma isNatural_not_NaN: "isNatural x \<Longrightarrow> x \<noteq> NaN"
  by (auto simp: isNatural_def)



section \<open>Two parties\<close>

lemma genuine_euros:
  assumes "i < length rows"
  shows "genuine (euros (computed rows amount ! i))"
  using assms by (simp add: computed_def Let_def genuine_round2)

text \<open>
  C3. For two rows with a positive total distance whose computed amounts have a
  difference \<open>A.amount - B.amount\<close> that is a number (not NaN: the amounts are numbers and
  not the same infinity), with \<open>diff = round2 (abs (A.amount - B.amount))\<close>: either \<open>diff\<close>
  is zero and the summary is the sentence of \<open>NoPaymentNeeded\<close>, or it is not and the
  summary is the sentence of \<open>PayFromTo\<close> with the party of the strictly smaller amount as
  payer, the other as payee and \<open>diff\<close> as amount. The rows \<^verbatim>\<open>[{A,150},{B,50}]\<close> with
  amount 100 give \<^verbatim>\<open>"B moet (euro)50 aan A betalen."\<close>. The condition on the difference is
  needed: with the amount \<^verbatim>\<open>1e307\<close> both computed amounts of these rows are infinite and
  the summary names A as payer of \<^verbatim>\<open>NaN\<close>.
\<close>

theorem two_party_settlement:
  assumes "length rows = 2" "gt (totalKm rows) (Fin 0)"
    and "fsub (euros (computed rows amount ! 0)) (euros (computed rows amount ! 1)) \<noteq> NaN"
  shows
    "((strictEq (settleDiff (computed rows amount ! 0) (computed rows amount ! 1)) (Fin 0) \<and>
       summary rows amount = sentence NoPaymentNeeded) \<or>
      (\<not> strictEq (settleDiff (computed rows amount ! 0) (computed rows amount ! 1)) (Fin 0) \<and>
       gt (euros (computed rows amount ! 0)) (euros (computed rows amount ! 1)) \<and>
       summary rows amount =
         sentence (PayFromTo (name (computed rows amount ! 1)) (name (computed rows amount ! 0))
                     (settleDiff (computed rows amount ! 0) (computed rows amount ! 1)))) \<or>
      (\<not> strictEq (settleDiff (computed rows amount ! 0) (computed rows amount ! 1)) (Fin 0) \<and>
       gt (euros (computed rows amount ! 1)) (euros (computed rows amount ! 0)) \<and>
       summary rows amount =
         sentence (PayFromTo (name (computed rows amount ! 0)) (name (computed rows amount ! 1))
                     (settleDiff (computed rows amount ! 0) (computed rows amount ! 1))))) \<and>
     summary rows1 (Fin 100) = str ''B moet '' @ euro @ str ''50 aan A betalen.''"
proof
  let ?a = "computed rows amount ! 0" and ?b = "computed rows amount ! 1"
  let ?diff = "settleDiff ?a ?b"
  have ga: "genuine (euros ?a)" and gb: "genuine (euros ?b)"
    using assms(1) by (simp_all add: genuine_euros)
  have s: "summary rows amount =
     (if strictEq ?diff (Fin 0) then sentence NoPaymentNeeded
      else if gt (euros ?a) (euros ?b)
        then sentence (PayFromTo (name ?b) (name ?a) (round2 (fsub (euros ?a) (euros ?b))))
        else sentence (PayFromTo (name ?a) (name ?b) (round2 (fsub (euros ?b) (euros ?a)))))"
    using assms(1,2) by (simp add: summary_def Let_def settleDiff_def)
  from diff_cases_number [OF ga gb assms(3)]
  show "(strictEq ?diff (Fin 0) \<and> summary rows amount = sentence NoPaymentNeeded) \<or>
      (\<not> strictEq ?diff (Fin 0) \<and> gt (euros ?a) (euros ?b) \<and>
       summary rows amount = sentence (PayFromTo (name ?b) (name ?a) ?diff)) \<or>
      (\<not> strictEq ?diff (Fin 0) \<and> gt (euros ?b) (euros ?a) \<and>
       summary rows amount = sentence (PayFromTo (name ?a) (name ?b) ?diff))"
  proof (elim disjE conjE)
    assume "round2 (mathAbs (fsub (euros ?a) (euros ?b))) = Fin 0"
    then have "strictEq ?diff (Fin 0)" by (simp add: settleDiff_def strictEq_def)
    with s show ?thesis by simp
  next
    assume g: "gt (euros ?a) (euros ?b)"
      and d: "round2 (mathAbs (fsub (euros ?a) (euros ?b))) = round2 (fsub (euros ?a) (euros ?b))"
    then have "?diff = round2 (fsub (euros ?a) (euros ?b))" by (simp add: settleDiff_def)
    with s g show ?thesis by (cases "strictEq ?diff (Fin 0)") simp_all
  next
    assume g: "gt (euros ?b) (euros ?a)" and ng: "\<not> gt (euros ?a) (euros ?b)"
      and d: "round2 (mathAbs (fsub (euros ?a) (euros ?b))) = round2 (fsub (euros ?b) (euros ?a))"
    then have "?diff = round2 (fsub (euros ?b) (euros ?a))" by (simp add: settleDiff_def)
    with s g ng show ?thesis by (cases "strictEq ?diff (Fin 0)") simp_all
  qed
next
  have t1: "totalKm rows1 = Fin 200"
    by (simp add: rows1_def totalKm_def num_eval)
  have c1: "computed rows1 (Fin 100) =
     [\<lparr>name = str ''A'', km = Fin 150, pct = Fin 75, euros = Fin 75\<rparr>,
      \<lparr>name = str ''B'', km = Fin 50, pct = Fin 25, euros = Fin 25\<rparr>]"
    using t1 unfolding rows1_def computed_def
    by (simp add: Let_def) (simp add: num_eval)
  have d: "round2 (mathAbs (fsub (Fin 75) (Fin 25))) = Fin 50"
    by (simp add: num_eval)
  have e: "round2 (fsub (Fin 75) (Fin 25)) = Fin 50"
    by (simp add: num_eval)
  have n: "posToString 50 = str ''50''"
    by (simp add: str_eval num_eval)
  have l: "length rows1 = 2" by (simp add: rows1_def)
  show "summary rows1 (Fin 100) = str ''B moet '' @ euro @ str ''50 aan A betalen.''"
    unfolding summary_def c1 t1 l
    by (simp add: Let_def d e n gt_def strictEq_def) (simp add: str_def)
qed

theorem two_party_settlement_witness:
  "length rows1 = 2 \<and> gt (totalKm rows1) (Fin 0) \<and>
   fsub (euros (computed rows1 (Fin 100) ! 0)) (euros (computed rows1 (Fin 100) ! 1)) = Fin 50 \<and>
   Fin 50 \<noteq> NaN \<and>
   settleDiff (computed rows1 (Fin 100) ! 0) (computed rows1 (Fin 100) ! 1) = Fin 50 \<and>
   summary rows1 (Fin 100) = sentence (PayFromTo (str ''B'') (str ''A'') (Fin 50))"
proof -
  have t1: "totalKm rows1 = Fin 200"
    by (simp add: rows1_def totalKm_def num_eval)
  have c1: "computed rows1 (Fin 100) =
     [\<lparr>name = str ''A'', km = Fin 150, pct = Fin 75, euros = Fin 75\<rparr>,
      \<lparr>name = str ''B'', km = Fin 50, pct = Fin 25, euros = Fin 25\<rparr>]"
    using t1 unfolding rows1_def computed_def
    by (simp add: Let_def) (simp add: num_eval)
  have l: "length rows1 = 2" by (simp add: rows1_def)
  have g: "gt (totalKm rows1) (Fin 0)" by (simp add: t1 gt_def)
  have fs: "fsub (euros (computed rows1 (Fin 100) ! 0)) (euros (computed rows1 (Fin 100) ! 1)) = Fin 50"
    unfolding c1 by (simp add: num_eval)
  then have nn: "fsub (euros (computed rows1 (Fin 100) ! 0)) (euros (computed rows1 (Fin 100) ! 1)) \<noteq> NaN"
    by simp
  have d: "settleDiff (computed rows1 (Fin 100) ! 0) (computed rows1 (Fin 100) ! 1) = Fin 50"
    unfolding c1 settleDiff_def by (simp add: num_eval)
  have ng: "\<not> gt (euros (computed rows1 (Fin 100) ! 1)) (euros (computed rows1 (Fin 100) ! 0))"
    by (simp add: c1 gt_def)
  have ns: "\<not> strictEq (Fin 50) (Fin 0)" by (simp add: strictEq_def)
  have nm: "name (computed rows1 (Fin 100) ! 0) = str ''A''" "name (computed rows1 (Fin 100) ! 1) = str ''B''"
    by (simp_all add: c1)
  from two_party_settlement [OF l g nn] ng ns
  have "summary rows1 (Fin 100) = sentence (PayFromTo (str ''B'') (str ''A'') (Fin 50))"
    unfolding d nm by blast
  with l g fs d show ?thesis by simp
qed

section \<open>The error of the arithmetic\<close>

lemma roundEven_error: "\<bar>of_int (roundEven r) - r\<bar> \<le> 1 / 2"
proof -
  have "of_int \<lfloor>r\<rfloor> \<le> r" "r < of_int \<lfloor>r\<rfloor> + 1"
    using floor_correct [of r] by simp_all
  then show ?thesis
    by (auto simp: roundEven_def Let_def abs_le_iff)
qed

lemma ilog2_le:
  assumes "0 < r" "r \<le> 2 powi M"
  shows "ilog2 r \<le> M"
proof (rule ccontr)
  assume "\<not> ilog2 r \<le> M"
  then have "M + 1 \<le> ilog2 r" by simp
  then have "(2::rat) powi (M + 1) \<le> 2 powi (ilog2 r)" by (intro power_int_increasing) auto
  moreover have "(2::rat) powi M < 2 powi (M + 1)" by (intro power_int_strict_increasing) auto
  ultimately show False using ilog2_bounds [OF assms(1)] assms(2) by linarith
qed

lemma ilog2_less:
  assumes "0 < v" "v < 2 powi N"
  shows "ilog2 v < N"
proof (rule ccontr)
  assume "\<not> ilog2 v < N"
  then have "(2::rat) powi N \<le> 2 powi (ilog2 v)" by (intro power_int_increasing) auto
  then show False using ilog2_bounds [OF assms(1)] assms(2) by linarith
qed

lemma two_powi_half: "(2::rat) powi (E - 53) = 2 powi (E - 52) / 2"
proof -
  have "E - 52 = (E - 53) + 1" by simp
  then have "(2::rat) powi (E - 52) = 2 powi (E - 53) * 2 powi 1"
    by (simp only: two_powi_add)
  then show ?thesis by simp
qed

lemma roundPos_error:
  assumes "0 < r" "r \<le> 2 powi M" "- 1022 \<le> M" "M \<le> 1023"
  shows "\<exists>v. roundPos r = Fin v \<and> 0 \<le> v \<and> \<bar>v - r\<bar> \<le> 2 powi (M - 53)"
proof -
  define E where "E = max (ilog2 r) (- 1022)"
  define q :: rat where "q = 2 powi (E - 52)"
  define m where "m = roundEven (r / q)"
  define v where "v = of_int m * q"
  have q0: "0 < q" by (simp add: q_def two_powi_pos)
  have EM: "E \<le> M" using ilog2_le [OF assms(1,2)] assms(3) by (simp add: E_def)
  have "\<bar>of_int m - r / q\<bar> \<le> 1 / 2" unfolding m_def by (rule roundEven_error)
  then have "\<bar>of_int m - r / q\<bar> * q \<le> 1 / 2 * q" using q0 by (intro mult_right_mono) simp_all
  moreover have "\<bar>of_int m - r / q\<bar> * q = \<bar>v - r\<bar>"
  proof -
    have "v - r = (of_int m - r / q) * q" using q0 by (simp add: v_def left_diff_distrib)
    then have "\<bar>v - r\<bar> = \<bar>of_int m - r / q\<bar> * \<bar>q\<bar>" by (simp only: abs_mult)
    then show ?thesis using q0 by simp
  qed
  ultimately have err: "\<bar>v - r\<bar> \<le> q / 2" by simp
  have qh: "q / 2 = 2 powi (E - 53)" by (simp add: q_def two_powi_half)
  have "(2::rat) powi (E - 53) \<le> 2 powi (M - 53)" using EM by (intro power_int_increasing) auto
  with err qh have errM: "\<bar>v - r\<bar> \<le> 2 powi (M - 53)" by simp
  have m0: "0 \<le> m" unfolding m_def using assms(1) q0 by (intro roundEven_nonneg) simp
  then have v0: "0 \<le> v" using q0 by (simp add: v_def)
  have "(2::rat) powi (M - 53) < 2 powi M" by (intro power_int_strict_increasing) auto
  with errM assms(2) have "v < 2 powi M + 2 powi M" by (simp add: abs_le_iff)
  also have "\<dots> = 2 powi (M + 1)" by (simp add: two_powi_Suc)
  finally have vlt: "v < 2 powi (M + 1)" .
  have "\<not> 1024 \<le> ilog2 v"
  proof (cases "v = 0")
    case True
    then show ?thesis by (simp add: ilog2_def Let_def compute_bitlen)
  next
    case False
    with v0 have "0 < v" by simp
    from ilog2_less [OF this vlt] assms(4) show ?thesis by simp
  qed
  then have "roundPos r = Fin v"
    by (simp add: roundPos_def Let_def E_def [symmetric] q_def [symmetric] m_def [symmetric] v_def [symmetric])
  with v0 errM show ?thesis by blast
qed

lemma round64_error:
  assumes "\<bar>r\<bar> \<le> 2 powi M" "- 1022 \<le> M" "M \<le> 1023"
  shows "isFinite (round64 r) \<and> \<bar>valueOf (round64 r) - r\<bar> \<le> 2 powi (M - 53)"
proof -
  consider "r = 0" | "0 < r" | "r < 0" by linarith
  then show ?thesis
  proof cases
    case 1
    then show ?thesis by (simp add: round64_def)
  next
    case 2
    with assms have "r \<le> 2 powi M" by simp
    from roundPos_error [OF 2 this assms(2,3)] show ?thesis
      using 2 by (auto simp: round64_def)
  next
    case 3
    then have p: "0 < - r" by simp
    with assms have "- r \<le> 2 powi M" by simp
    from roundPos_error [OF p this assms(2,3)] obtain v where
      v: "roundPos (- r) = Fin v" "0 \<le> v" "\<bar>v - (- r)\<bar> \<le> 2 powi (M - 53)" by blast
    have "\<bar>- v - r\<bar> = \<bar>v - (- r)\<bar>" by (simp add: abs_minus_commute)
    with v 3 show ?thesis
      by (cases "v = 0") (auto simp: round64_def)
  qed
qed

lemma two_powi_nonneg: "(0::rat) \<le> 2 powi e"
  using two_powi_pos [of e] by simp

lemma fadd_error:
  assumes "isFinite x" "isFinite y" "\<bar>valueOf x + valueOf y\<bar> \<le> 2 powi M" "- 1022 \<le> M" "M \<le> 1023"
  shows "isFinite (fadd x y) \<and> \<bar>valueOf (fadd x y) - (valueOf x + valueOf y)\<bar> \<le> 2 powi (M - 53)"
proof -
  have e: "isFinite (round64 (valueOf x + valueOf y)) \<and>
      \<bar>valueOf (round64 (valueOf x + valueOf y)) - (valueOf x + valueOf y)\<bar> \<le> 2 powi (M - 53)"
    by (rule round64_error [OF assms(3,4,5)])
  from assms(1,2) e show ?thesis
    by (cases x; cases y) (simp_all add: fadd_def two_powi_nonneg)
qed

lemma fmul_error:
  assumes "isFinite x" "isFinite y" "\<bar>valueOf x * valueOf y\<bar> \<le> 2 powi M" "- 1022 \<le> M" "M \<le> 1023"
  shows "isFinite (fmul x y) \<and> \<bar>valueOf (fmul x y) - valueOf x * valueOf y\<bar> \<le> 2 powi (M - 53)"
proof -
  have e: "isFinite (round64 (valueOf x * valueOf y)) \<and>
      \<bar>valueOf (round64 (valueOf x * valueOf y)) - valueOf x * valueOf y\<bar> \<le> 2 powi (M - 53)"
    by (rule round64_error [OF assms(3,4,5)])
  from assms(1,2) e show ?thesis
    by (cases x; cases y) (auto simp: fmul_def withSign_def two_powi_nonneg)
qed

lemma fdiv_error:
  assumes "isFinite x" "isFinite y" "valueOf y \<noteq> 0"
    "\<bar>valueOf x / valueOf y\<bar> \<le> 2 powi M" "- 1022 \<le> M" "M \<le> 1023"
  shows "isFinite (fdiv x y) \<and> \<bar>valueOf (fdiv x y) - valueOf x / valueOf y\<bar> \<le> 2 powi (M - 53)"
proof -
  have e: "isFinite (round64 (valueOf x / valueOf y)) \<and>
      \<bar>valueOf (round64 (valueOf x / valueOf y)) - valueOf x / valueOf y\<bar> \<le> 2 powi (M - 53)"
    by (rule round64_error [OF assms(4,5,6)])
  from assms(1,2,3) e show ?thesis
    by (cases x; cases y) (auto simp: fdiv_def withSign_def two_powi_nonneg)
qed

lemma floor_half: "\<lfloor>1 / 2 :: rat\<rfloor> = 0"
  by (rule floor_unique) simp_all

lemma mathRound_value:
  assumes "isFinite u"
  shows "isFinite (mathRound u) \<and> valueOf (mathRound u) = of_int \<lfloor>valueOf u + 1 / 2\<rfloor>"
  using assms by (cases u) (simp_all add: Let_def floor_half)

lemma floor_half_error: "\<bar>of_int \<lfloor>y + 1 / 2\<rfloor> - y\<bar> \<le> (1 / 2 :: rat)"
proof -
  have "of_int \<lfloor>y + 1 / 2\<rfloor> \<le> y + 1 / 2" "y + 1 / 2 < of_int \<lfloor>y + 1 / 2\<rfloor> + 1"
    using floor_correct [of "y + 1 / 2"] by simp_all
  then show ?thesis by linarith
qed

text \<open>The steps of \<open>round2\<close> on a finite number of magnitude at most \<open>2 ^ 38\<close>.\<close>

lemma round2_steps:
  assumes "isFinite x" "\<bar>valueOf x\<bar> \<le> 2 ^ 38"
  defines "y \<equiv> fmul (fadd x EPSILON) (Fin 100)"
  shows "isFinite y" and "\<bar>valueOf y - 100 * valueOf x\<bar> \<le> 1 / 64"
    and "isFinite (round2 x)"
    and "\<bar>valueOf (round2 x) - of_int \<lfloor>valueOf y + 1 / 2\<rfloor> / 100\<bar> \<le> 1 / 2 ^ 13"
proof -
  let ?a = "valueOf x"
  define z where "z = fadd x EPSILON"
  have eps: "valueOf EPSILON = 1 / 2 ^ 52" "isFinite EPSILON" by (simp_all add: EPSILON_def)
  have "\<bar>?a + valueOf EPSILON\<bar> \<le> 2 ^ 38 + 1 / 2 ^ 52" using assms(2) unfolding eps abs_le_iff by auto
  also have "\<dots> \<le> (2::rat) powi 39" by simp
  finally have "isFinite z \<and> \<bar>valueOf z - (?a + valueOf EPSILON)\<bar> \<le> 2 powi (39 - 53)"
    unfolding z_def by (intro fadd_error assms(1) eps) simp_all
  then have zf: "isFinite z" and ze: "\<bar>valueOf z - (?a + 1 / 2 ^ 52)\<bar> \<le> 1 / 2 ^ 14"
    by (simp_all add: eps power_int_minus_divide)
  have zb: "\<bar>valueOf z\<bar> \<le> 2 ^ 39" using ze assms(2) unfolding abs_le_iff by auto
  have hf: "isFinite (Fin 100)" and hv: "valueOf (Fin 100) = 100" by simp_all
  have "\<bar>valueOf z * valueOf (Fin 100)\<bar> \<le> 2 ^ 39 * 100" using zb by (simp add: abs_mult)
  also have "\<dots> \<le> (2::rat) powi 46" by simp
  finally have "isFinite (fmul z (Fin 100)) \<and>
      \<bar>valueOf (fmul z (Fin 100)) - valueOf z * valueOf (Fin 100)\<bar> \<le> 2 powi (46 - 53)"
    by (intro fmul_error zf hf) simp_all
  then have yf: "isFinite y" and ye: "\<bar>valueOf y - valueOf z * 100\<bar> \<le> 1 / 2 ^ 7"
    by (simp_all add: y_def z_def power_int_minus_divide)
  show "isFinite y" by (rule yf)
  show yerr: "\<bar>valueOf y - 100 * ?a\<bar> \<le> 1 / 64"
    using ye ze unfolding abs_le_iff by auto
  define k where "k = \<lfloor>valueOf y + 1 / 2\<rfloor>"
  have mr: "isFinite (mathRound y)" "valueOf (mathRound y) = of_int k"
    using mathRound_value [OF yf] by (simp_all add: k_def)
  have "\<bar>of_int k - valueOf y\<bar> \<le> (1 / 2 :: rat)" unfolding k_def by (rule floor_half_error)
  with yerr assms(2) have kb: "\<bar>of_int k :: rat\<bar> \<le> 2 ^ 38 * 100 + 1"
    unfolding abs_le_iff by auto
  have "\<bar>valueOf (mathRound y) / valueOf (Fin 100)\<bar> \<le> (2 ^ 38 * 100 + 1) / 100"
    using kb by (simp add: mr)
  also have "\<dots> \<le> (2::rat) powi 40" by simp
  finally have "isFinite (fdiv (mathRound y) (Fin 100)) \<and>
      \<bar>valueOf (fdiv (mathRound y) (Fin 100)) - valueOf (mathRound y) / valueOf (Fin 100)\<bar>
        \<le> 2 powi (40 - 53)"
    by (intro fdiv_error mr hf) simp_all
  then show "isFinite (round2 x)"
    and "\<bar>valueOf (round2 x) - of_int \<lfloor>valueOf y + 1 / 2\<rfloor> / 100\<bar> \<le> 1 / 2 ^ 13"
    by (simp_all add: round2_def y_def [symmetric] mr k_def power_int_minus_divide)
qed

lemma combine_bounds:
  "\<bar>y - 100 * a\<bar> \<le> 1 / 64 \<Longrightarrow> \<bar>r - k / 100\<bar> \<le> 1 / 2 ^ 13 \<Longrightarrow> \<bar>k - y\<bar> \<le> 1 / 2 \<Longrightarrow>
   \<bar>r - a\<bar> \<le> 1 / 200 + 1 / (2048::rat)"
  unfolding abs_le_iff by auto

lemma round2_error:
  assumes "isFinite x" "\<bar>valueOf x\<bar> \<le> 2 ^ 38"
  shows "isFinite (round2 x) \<and> \<bar>valueOf (round2 x) - valueOf x\<bar> \<le> 1 / 200 + 1 / 2048"
proof -
  let ?y = "valueOf (fmul (fadd x EPSILON) (Fin 100))"
  let ?k = "of_int \<lfloor>?y + 1 / 2\<rfloor> :: rat"
  from round2_steps [OF assms]
  have f: "isFinite (round2 x)" and a: "\<bar>?y - 100 * valueOf x\<bar> \<le> 1 / 64"
    and b: "\<bar>valueOf (round2 x) - ?k / 100\<bar> \<le> 1 / 2 ^ 13" by simp_all
  have c: "\<bar>?k - ?y\<bar> \<le> 1 / 2" by (rule floor_half_error)
  from a b c have "\<bar>valueOf (round2 x) - valueOf x\<bar> \<le> 1 / 200 + 1 / 2048"
    by (rule combine_bounds)
  with f show ?thesis by simp
qed

section \<open>The sum of the shares\<close>

lemma share_error:
  assumes "isFinite amount" "\<bar>valueOf amount\<bar> \<le> 2 ^ 37" "isNatural k" "0 < S" "valueOf k \<le> S"
  shows "isFinite (round2 (fmul amount (fdiv k (Fin S)))) \<and>
    \<bar>valueOf (round2 (fmul amount (fdiv k (Fin S)))) - valueOf amount * (valueOf k / S)\<bar> \<le> 1 / 100"
proof -
  define A where "A = valueOf amount"
  define c where "c = valueOf k / S"
  have kf: "isFinite k" and k0: "0 \<le> valueOf k"
    using assms(3) by (cases k; simp add: isNatural_def)+
  have c01: "0 \<le> c" "c \<le> 1" using k0 assms(4,5) by (simp_all add: c_def)
  have A37: "\<bar>A\<bar> \<le> 2 ^ 37" using assms(2) by (simp add: A_def)
  define p where "p = fdiv k (Fin S)"
  define pv where "pv = valueOf p"
  have "\<bar>valueOf k / valueOf (Fin S)\<bar> \<le> 2 powi 0" using c01 by (simp add: c_def)
  then have "isFinite p \<and> \<bar>valueOf p - valueOf k / valueOf (Fin S)\<bar> \<le> 2 powi (0 - 53)"
    unfolding p_def using assms(4) by (intro fdiv_error kf) simp_all
  then have pf: "isFinite p" and pe: "\<bar>pv - c\<bar> \<le> 1 / 2 ^ 53"
    by (simp_all add: power_int_minus_divide c_def pv_def)
  have pb: "\<bar>pv\<bar> \<le> 2" using pe c01 unfolding abs_le_iff by auto
  define w where "w = fmul amount p"
  define wv where "wv = valueOf w"
  have "\<bar>A * pv\<bar> \<le> 2 ^ 37 * 2"
    unfolding abs_mult using A37 pb by (intro mult_mono) simp_all
  also have "\<dots> = (2::rat) powi 38" by simp
  finally have "\<bar>valueOf amount * valueOf p\<bar> \<le> 2 powi 38" by (simp add: A_def pv_def)
  then have "isFinite w \<and> \<bar>valueOf w - valueOf amount * valueOf p\<bar> \<le> 2 powi (38 - 53)"
    unfolding w_def by (intro fmul_error assms(1) pf) simp_all
  then have wf: "isFinite w" and we: "\<bar>wv - A * pv\<bar> \<le> 1 / 2 ^ 15"
    by (simp_all add: power_int_minus_divide A_def pv_def wv_def)
  have "\<bar>A * pv - A * c\<bar> = \<bar>A\<bar> * \<bar>pv - c\<bar>"
    by (simp add: abs_mult [symmetric] right_diff_distrib)
  also have "\<dots> \<le> 2 ^ 37 * (1 / 2 ^ 53)"
    using A37 pe by (intro mult_mono) simp_all
  finally have ae: "\<bar>A * pv - A * c\<bar> \<le> 1 / 2 ^ 16" by simp
  have "\<bar>A * c\<bar> \<le> \<bar>A\<bar> * 1"
    unfolding abs_mult using c01 by (intro mult_left_mono) simp_all
  with A37 have ac: "\<bar>A * c\<bar> \<le> 2 ^ 37" by simp
  define Ac where "Ac = A * c"
  define Ap where "Ap = A * pv"
  have wc: "\<bar>wv - Ac\<bar> \<le> 1 / 2 ^ 14"
    using we ae unfolding abs_le_iff Ac_def [symmetric] Ap_def [symmetric] by auto
  have wb: "\<bar>wv\<bar> \<le> 2 ^ 38"
    using wc ac unfolding abs_le_iff Ac_def [symmetric] by auto
  from round2_error [OF wf wb [unfolded wv_def]]
  have rf: "isFinite (round2 w)" and re: "\<bar>valueOf (round2 w) - wv\<bar> \<le> 1 / 200 + 1 / 2048"
    by (simp_all add: wv_def)
  have "\<bar>valueOf (round2 w) - Ac\<bar> \<le> 1 / 100"
    using re wc unfolding abs_le_iff by auto
  with rf show ?thesis by (simp add: w_def p_def Ac_def A_def c_def)
qed

lemma sum_list_error:
  assumes "\<forall>x \<in> set xs. \<bar>f x - g x\<bar> \<le> (c::rat)"
  shows "\<bar>sum_list (map f xs) - sum_list (map g xs)\<bar> \<le> c * of_nat (length xs)"
  using assms
proof (induction xs)
  case Nil
  then show ?case by simp
next
  case (Cons x xs)
  then have a: "\<bar>f x - g x\<bar> \<le> c"
    and b: "\<bar>sum_list (map f xs) - sum_list (map g xs)\<bar> \<le> c * of_nat (length xs)"
    by simp_all
  have "\<bar>sum_list (map f (x # xs)) - sum_list (map g (x # xs))\<bar>
      = \<bar>(f x - g x) + (sum_list (map f xs) - sum_list (map g xs))\<bar>" by (simp add: algebra_simps)
  also have "\<dots> \<le> \<bar>f x - g x\<bar> + \<bar>sum_list (map f xs) - sum_list (map g xs)\<bar>"
    by (rule abs_triangle_ineq)
  also have "\<dots> \<le> c + c * of_nat (length xs)" using a b by simp
  finally show ?case by (simp add: algebra_simps)
qed

lemma sum_list_scaled:
  "sum_list (map (\<lambda>r. A * (valueOf (km r) / S)) rows) = A * (kmSum rows / (S::rat))"
  by (induction rows) (simp_all add: kmSum_def algebra_simps add_divide_distrib)

lemma km_le_kmSum:
  assumes "\<forall>r \<in> set rows. isNatural (km r)" "r \<in> set rows"
  shows "valueOf (km r) \<le> kmSum rows"
  using assms
proof (induction rows)
  case Nil
  then show ?case by simp
next
  case (Cons x rows)
  have x0: "0 \<le> valueOf (km x)" using Cons.prems(1) by (simp add: isNatural_nonneg)
  have "\<forall>r \<in> set rows. 0 \<le> valueOf (km r)" using Cons.prems(1) by (simp add: isNatural_nonneg)
  then have s0: "0 \<le> kmSum rows" unfolding kmSum_def by (intro sum_list_nonneg) auto
  show ?case
  proof (cases "r = x")
    case True
    then show ?thesis using s0 by (simp add: kmSum_def)
  next
    case False
    with Cons have "valueOf (km r) \<le> kmSum rows" by simp
    then show ?thesis using x0 by (simp add: kmSum_def)
  qed
qed

lemma shares_sum:
  assumes "isFinite amount" "\<bar>valueOf amount\<bar> \<le> 2 ^ 37"
    and "\<forall>r \<in> set rows. isNatural (km r)" "0 < kmSum rows" "kmSum rows \<le> 2 ^ 53"
  shows "\<bar>eurosSum (computed rows amount) - valueOf amount\<bar> \<le> 1 / 100 * of_nat (length rows)"
proof -
  let ?S = "kmSum rows" and ?A = "valueOf amount"
  let ?e = "\<lambda>r. valueOf (round2 (fmul amount (fdiv (km r) (Fin ?S))))"
  have d: "\<forall>r \<in> set rows. km r \<noteq> NaN" using assms(3) by (simp add: isNatural_not_NaN)
  have t: "totalKm rows = Fin ?S" by (rule totalKm_sum [OF assms(3,5)])
  from computed_rows [OF assms(1) d] assms(4)
  have c: "computed rows amount =
      map (\<lambda>r. \<lparr>name = name r, km = km r,
                  pct = round2 (fmul (Fin 100) (fdiv (km r) (Fin ?S))),
                  euros = round2 (fmul amount (fdiv (km r) (Fin ?S)))\<rparr>) rows"
    unfolding t by (simp add: gt_def)
  have es: "eurosSum (computed rows amount) = sum_list (map ?e rows)"
    unfolding c eurosSum_def by (simp add: comp_def)
  have "\<forall>r \<in> set rows. \<bar>?e r - ?A * (valueOf (km r) / ?S)\<bar> \<le> 1 / 100"
    using share_error [OF assms(1,2) _ assms(4)] assms(3) km_le_kmSum [OF assms(3)] by blast
  from sum_list_error [OF this]
  have "\<bar>sum_list (map ?e rows) - ?A * (?S / ?S)\<bar> \<le> 1 / 100 * of_nat (length rows)"
    by (simp only: sum_list_scaled)
  then show ?thesis using assms(4) by (simp add: es)
qed

text \<open>
  C6. For rows whose distances are non-negative integers with a positive total and an
  amount of at most \<open>10 ^ 11\<close> in absolute value, the computed amounts sum to the
  amount, and the computed percentages to 100, within 0.01 times the number of rows.
  Nothing is adjusted: each amount is rounded on its own. The bound on the amount is
  needed: for the distances 1 and 2 and the amount \<open>10 ^ 15\<close> the two amounts sum to
  \<open>10 ^ 15 - 1 / 16\<close>, off by more than 0.02.
\<close>

theorem share_sum_bounded:
  assumes "isFinite amount" "\<bar>valueOf amount\<bar> \<le> 10 ^ 11"
    and "\<forall>r \<in> set rows. isNatural (km r)" "0 < kmSum rows" "kmSum rows \<le> 2 ^ 53"
  shows "\<bar>eurosSum (computed rows amount) - valueOf amount\<bar> \<le> 1 / 100 * of_nat (length rows) \<and>
         \<bar>pctSum (computed rows amount) - 100\<bar> \<le> 1 / 100 * of_nat (length rows)"
proof
  have "(10::rat) ^ 11 \<le> 2 ^ 37" by simp
  with assms(2) have a: "\<bar>valueOf amount\<bar> \<le> 2 ^ 37" by linarith
  show "\<bar>eurosSum (computed rows amount) - valueOf amount\<bar> \<le> 1 / 100 * of_nat (length rows)"
    by (rule shares_sum [OF assms(1) a assms(3,4,5)])
  have f: "isFinite (Fin 100)" and h: "\<bar>valueOf (Fin 100)\<bar> \<le> 2 ^ 37" by simp_all
  have p: "pctSum (computed rows amount) = eurosSum (computed rows (Fin 100))"
  proof -
    have d: "\<forall>r \<in> set rows. km r \<noteq> NaN" using assms(3) by (simp add: isNatural_not_NaN)
    show ?thesis
      unfolding computed_rows [OF assms(1) d] computed_rows [OF f d]
      by (simp add: pctSum_def eurosSum_def comp_def)
  qed
  from shares_sum [OF f h assms(3,4,5)]
  show "\<bar>pctSum (computed rows amount) - 100\<bar> \<le> 1 / 100 * of_nat (length rows)"
    by (simp add: p)
qed

theorem share_sum_bounded_witness:
  "isFinite (Fin 100) \<and> \<bar>valueOf (Fin 100)\<bar> \<le> 10 ^ 11 \<and>
   isNatural (Fin 150) \<and> isNatural (Fin 50) \<and> kmSum rows1 = 200 \<and>
   \<bar>eurosSum (computed rows1 (Fin 100)) - 100\<bar> \<le> 1 / 50 \<and>
   \<bar>pctSum (computed rows1 (Fin 100)) - 100\<bar> \<le> 1 / 50"
proof -
  have n: "isNatural (Fin 150)" "isNatural (Fin 50)" by (simp_all add: isNatural_def)
  have k: "kmSum rows1 = 200" by (simp add: kmSum_def rows1_def)
  have h: "\<forall>r \<in> set rows1. isNatural (km r)" using n by (simp add: rows1_def)
  have f: "isFinite (Fin 100)" and a: "\<bar>valueOf (Fin 100)\<bar> \<le> 10 ^ 11" by simp_all
  have l: "length rows1 = 2" by (simp add: rows1_def)
  from share_sum_bounded [OF f a h] k l
  have "\<bar>eurosSum (computed rows1 (Fin 100)) - 100\<bar> \<le> 1 / 50 \<and>
        \<bar>pctSum (computed rows1 (Fin 100)) - 100\<bar> \<le> 1 / 50"
    by simp
  with f a n k show ?thesis by blast
qed

theorem share_sum_counterexample:
  "isFinite (Fin (10 ^ 15)) \<and> isNatural (Fin 1) \<and> isNatural (Fin 2) \<and>
   totalKm rows12 = Fin 3 \<and>
   eurosSum (computed rows12 (Fin (10 ^ 15))) = 10 ^ 15 - 1 / 16 \<and>
   \<not> \<bar>eurosSum (computed rows12 (Fin (10 ^ 15))) - 10 ^ 15\<bar> \<le> 1 / 100 * of_nat (length rows12)"
proof -
  have n: "isNatural (Fin 1)" "isNatural (Fin 2)" by (simp_all add: isNatural_def)
  have t: "totalKm rows12 = Fin 3" by (simp add: rows12_def totalKm_def num_eval)
  have p1: "fdiv (Fin 1) (Fin 3) = Fin (6004799503160661 / 18014398509481984)"
    by (simp add: num_eval)
  have p2: "fdiv (Fin 2) (Fin 3) = Fin (6004799503160661 / 9007199254740992)"
    by (simp add: num_eval)
  have w1: "fmul (Fin 1000000000000000) (Fin (6004799503160661 / 18014398509481984)) = Fin (5333333333333333 / 16)"
    by (simp add: num_eval)
  have w2: "fmul (Fin 1000000000000000) (Fin (6004799503160661 / 9007199254740992)) = Fin (5333333333333333 / 8)"
    by (simp add: num_eval)
  have e1: "round2 (Fin (5333333333333333 / 16)) = Fin (5333333333333333 / 16)"
    by (simp add: num_eval)
  have e2: "round2 (Fin (5333333333333333 / 8)) = Fin (5333333333333333 / 8)"
    by (simp add: num_eval)
  have c: "map (\<lambda>c. valueOf (euros c)) (computed rows12 (Fin (10 ^ 15))) =
      [5333333333333333 / 16, 5333333333333333 / 8]"
    using t unfolding rows12_def computed_def
    by (simp add: Let_def gt_def orZero_def p1 p2 w1 w2 e1 e2)
  have s: "eurosSum (computed rows12 (Fin (10 ^ 15))) = 10 ^ 15 - 1 / 16"
    unfolding eurosSum_def c by simp
  have l: "length rows12 = 2" by (simp add: rows12_def)
  have "\<not> \<bar>eurosSum (computed rows12 (Fin (10 ^ 15))) - 10 ^ 15\<bar> \<le> 1 / 100 * of_nat (length rows12)"
    unfolding s l by simp
  with n t s show ?thesis by simp
qed


section \<open>Rounding and the doubles around\<close>

lemma dyadic_over_quantum:
  assumes "E - 52 \<le> x"
  shows "of_int m * 2 powi x / 2 powi (E - 52) = (of_int (m * 2 ^ nat (x - (E - 52))) :: rat)"
proof -
  have "of_int m * 2 powi x / 2 powi (E - 52) = (of_int m :: rat) * 2 powi (x - (E - 52))"
    by (simp add: power_int_diff)
  also have "\<dots> = of_int (m * 2 ^ nat (x - (E - 52)))"
    using assms by (simp add: power_int_def)
  finally show ?thesis .
qed

lemma two_powi_52: "(2::rat) powi E = of_int (2 ^ 52) * 2 powi (E - 52)"
proof -
  have "E = 52 + (E - 52)" by simp
  then have "(2::rat) powi E = 2 powi (52 + (E - 52))" by simp
  also have "\<dots> = 2 powi 52 * 2 powi (E - 52)" by (rule two_powi_add)
  finally show ?thesis by simp
qed

lemma roundEven_ge_int:
  assumes "of_int n \<le> r"
  shows "n \<le> roundEven r"
proof -
  have "n \<le> \<lfloor>r\<rfloor>" using assms by (simp add: le_floor_iff)
  with roundEven_bounds [of r] show ?thesis by linarith
qed

text \<open>Rounding does not cross a double.\<close>

lemma roundPos_ge:
  assumes "0 < d" "isDouble d" "d \<le> r" "roundPos r = Fin v"
  shows "d \<le> v"
proof -
  have r0: "0 < r" using assms(1,3) by simp
  define E where "E = max (ilog2 r) (- 1022)"
  define q :: rat where "q = 2 powi (E - 52)"
  define m where "m = roundEven (r / q)"
  have q0: "0 < q" by (simp add: q_def two_powi_pos)
  from assms(4) have v: "v = of_int m * q"
    by (auto simp: roundPos_def Let_def E_def q_def m_def split: if_splits)
  from assms(2) obtain md x where d: "d = of_int md * 2 powi x" and md: "\<bar>md\<bar> < 2 ^ 53"
    and x: "- 1074 \<le> x" by (auto simp: isDouble_def)
  have mdp: "0 < md"
  proof (rule ccontr)
    assume "\<not> 0 < md"
    then have "(of_int md :: rat) \<le> 0" by simp
    then have "d \<le> 0" unfolding d using two_powi_pos [of x] by (simp add: mult_le_0_iff)
    with assms(1) show False by simp
  qed
  show ?thesis
  proof (cases "E - 52 \<le> x")
    case True
    define j where "j = md * 2 ^ nat (x - (E - 52))"
    have dq: "d / q = of_int j" unfolding d q_def j_def by (rule dyadic_over_quantum [OF True])
    have "d / q \<le> r / q" using assms(3) q0 by (simp add: divide_right_mono)
    then have "j \<le> m" unfolding m_def dq by (rule roundEven_ge_int)
    then have "(of_int j :: rat) * q \<le> of_int m * q" using q0 by simp
    moreover have "of_int j * q = d" using dq q0 by (simp add: field_simps)
    ultimately show ?thesis by (simp add: v)
  next
    case False
    then have xl: "x < E - 52" by simp
    with x have En: "- 1022 < E" by simp
    then have Er: "E = ilog2 r" by (auto simp: E_def max_def)
    have bm: "bitlen md \<le> 53" using md mdp by (simp add: bitlen_le_iff_power)
    have "d < 2 powi (ilog2 d + 1)" using ilog2_bounds [OF assms(1)] by simp
    moreover have "ilog2 d = x + bitlen md - 1" unfolding d by (rule ilog2_dyadic [OF mdp])
    ultimately have "d < 2 powi (x + bitlen md)" by simp
    also have "\<dots> \<le> 2 powi E" using xl bm by (intro power_int_increasing) auto
    finally have dE: "d < 2 powi E" .
    have "(2::rat) powi E = of_int (2 ^ 52) * q"
      unfolding q_def by (rule two_powi_52)
    moreover have "2 powi E \<le> r" using ilog2_bounds [OF r0] by (simp add: Er)
    ultimately have "of_int (2 ^ 52) \<le> r / q" using q0 by (simp add: pos_le_divide_eq)
    then have "2 ^ 52 \<le> m" unfolding m_def by (rule roundEven_ge_int)
    then have "(of_int (2 ^ 52) :: rat) * q \<le> of_int m * q" using q0 by (simp only: of_int_le_iff mult_le_cancel_right_pos)
    with \<open>2 powi E = of_int (2 ^ 52) * q\<close> have "2 powi E \<le> v" by (simp add: v)
    with dE show ?thesis by simp
  qed
qed

lemma roundPos_le:
  assumes "0 < r" "isDouble d" "r \<le> d" "roundPos r = Fin v"
  shows "v \<le> d"
proof -
  have d0: "0 < d" using assms(1,3) by simp
  define E where "E = max (ilog2 r) (- 1022)"
  define q :: rat where "q = 2 powi (E - 52)"
  define m where "m = roundEven (r / q)"
  have q0: "0 < q" by (simp add: q_def two_powi_pos)
  from assms(4) have v: "v = of_int m * q"
    by (auto simp: roundPos_def Let_def E_def q_def m_def split: if_splits)
  from assms(2) obtain md x where d: "d = of_int md * 2 powi x" and md: "\<bar>md\<bar> < 2 ^ 53"
    and x: "- 1074 \<le> x" by (auto simp: isDouble_def)
  have mdp: "0 < md"
  proof (rule ccontr)
    assume "\<not> 0 < md"
    then have "(of_int md :: rat) \<le> 0" by simp
    then have "d \<le> 0" unfolding d using two_powi_pos [of x] by (simp add: mult_le_0_iff)
    with d0 show False by simp
  qed
  have xE: "E - 52 \<le> x"
  proof (rule ccontr)
    assume "\<not> E - 52 \<le> x"
    then have xl: "x < E - 52" by simp
    with x have En: "- 1022 < E" by simp
    then have Er: "E = ilog2 r" by (auto simp: E_def max_def)
    have bm: "bitlen md \<le> 53" using md mdp by (simp add: bitlen_le_iff_power)
    have "d < 2 powi (ilog2 d + 1)" using ilog2_bounds [OF d0] by simp
    moreover have "ilog2 d = x + bitlen md - 1" unfolding d by (rule ilog2_dyadic [OF mdp])
    ultimately have "d < 2 powi (x + bitlen md)" by simp
    also have "\<dots> \<le> 2 powi E" using xl bm by (intro power_int_increasing) auto
    also have "\<dots> \<le> r" using ilog2_bounds [OF assms(1)] by (simp add: Er)
    finally show False using assms(3) by simp
  qed
  define j where "j = md * 2 ^ nat (x - (E - 52))"
  have dq: "d / q = of_int j" unfolding d q_def j_def by (rule dyadic_over_quantum [OF xE])
  have "r / q \<le> d / q" using assms(3) q0 by (simp add: divide_right_mono)
  then have "m \<le> j" unfolding m_def dq by (rule roundEven_le_int)
  then have "(of_int m :: rat) * q \<le> of_int j * q" using q0 by simp
  moreover have "of_int j * q = d" using dq q0 by (simp add: field_simps)
  ultimately show ?thesis by (simp add: v)
qed

lemma roundPos_value_nonneg: "0 < r \<Longrightarrow> 0 \<le> valueOf (roundPos r)"
  using roundPos_cases [of r] roundPos_isDouble [of r] by auto

lemma round64_ge:
  assumes "isDouble d" "d \<le> r" "isFinite (round64 r)"
  shows "d \<le> valueOf (round64 r)"
proof -
  consider "r = 0" | "0 < r" | "r < 0" by linarith
  then show ?thesis
  proof cases
    case 1
    with assms show ?thesis by (simp add: round64_def)
  next
    case 2
    with assms(3) have f: "isFinite (roundPos r)" by (simp add: round64_def)
    then obtain v where v: "roundPos r = Fin v" using roundPos_cases [of r] by auto
    show ?thesis
    proof (cases "0 < d")
      case True
      from roundPos_ge [OF True assms(1,2) v] show ?thesis using 2 v by (simp add: round64_def)
    next
      case False
      with roundPos_value_nonneg [OF 2] show ?thesis using 2 by (simp add: round64_def)
    qed
  next
    case 3
    then have p: "0 < - r" by simp
    from 3 assms(3) have f: "isFinite (fneg (roundPos (- r)))" by (simp add: round64_def)
    then obtain v where v: "roundPos (- r) = Fin v" using roundPos_cases [of "- r"] by auto
    have "v \<le> - d"
      using assms(1,2) by (intro roundPos_le [OF p _ _ v]) (simp_all add: isDouble_uminus)
    then show ?thesis using 3 v by (simp add: round64_def)
  qed
qed

section \<open>Amounts that overflow\<close>

lemma ilog2_ge:
  assumes "0 < r" "2 powi M \<le> r"
  shows "M \<le> ilog2 r"
proof (rule ccontr)
  assume "\<not> M \<le> ilog2 r"
  then have "ilog2 r + 1 \<le> M" by simp
  then have "(2::rat) powi (ilog2 r + 1) \<le> 2 powi M" by (intro power_int_increasing) simp_all
  with ilog2_bounds [OF assms(1)] assms(2) show False by linarith
qed

lemma roundPos_overflow:
  assumes "2 powi 1024 \<le> r"
  shows "roundPos r = PInf"
proof -
  have r0: "0 < r" using assms two_powi_pos [of 1024] by linarith
  define e where "e = ilog2 r"
  define q :: rat where "q = 2 powi (e - 52)"
  define v where "v = of_int (roundEven (r / q)) * q"
  have e1: "1024 \<le> e" unfolding e_def by (rule ilog2_ge [OF r0 assms])
  have q0: "0 < q" by (simp add: q_def two_powi_pos)
  have "2 powi e \<le> r" using ilog2_bounds [OF r0] by (simp add: e_def)
  then have "of_int (2 ^ 52) * q \<le> r" using two_powi_52 [of e] by (simp add: q_def)
  then have "of_int (2 ^ 52) \<le> r / q" using q0 by (simp add: pos_le_divide_eq)
  then have "2 ^ 52 \<le> roundEven (r / q)" by (rule roundEven_ge_int)
  then have "(of_int (2 ^ 52) :: rat) \<le> of_int (roundEven (r / q))" by (simp only: of_int_le_iff)
  then have "of_int (2 ^ 52) * q \<le> v" using q0 unfolding v_def by (intro mult_right_mono) simp_all
  then have ve: "2 powi e \<le> v" using two_powi_52 [of e] by (simp add: q_def)
  have "(2::rat) powi 1024 \<le> 2 powi e" using e1 by (intro power_int_increasing) simp_all
  with ve have v1: "2 powi 1024 \<le> v" by linarith
  then have v0: "0 < v" using two_powi_pos [of 1024] by linarith
  have "1024 \<le> ilog2 v" by (rule ilog2_ge [OF v0 v1])
  moreover have "max (ilog2 r) (- 1022) = e" using e1 by (simp add: e_def)
  ultimately show ?thesis
    unfolding roundPos_def by (simp add: Let_def e_def [symmetric] q_def [symmetric] v_def [symmetric])
qed

lemma isDouble_three: "isDouble (3 * 2 ^ 1016)"
proof -
  have "(3 * 2 ^ 1016 :: rat) = of_int 3 * 2 powi 1016" by simp
  moreover have "bitlen 3 = 2" by (simp add: compute_bitlen)
  ultimately show ?thesis
    unfolding isDouble_def by (intro exI [of _ 3] exI [of _ 1016]) simp
qed

lemma round2_overflow:
  assumes "3 * 2 ^ 1016 \<le> r"
  shows "round2 (Fin r) = PInf"
proof -
  have d0: "(0::rat) < 3 * 2 ^ 1016" by simp
  then have r0: "0 < r" using assms by linarith
  define y where "y = r + 1 / 2 ^ 52"
  have y0: "0 < y" using r0 by (simp add: y_def add_pos_pos)
  have s: "fadd (Fin r) EPSILON = roundPos y"
    using y0 by (simp add: EPSILON_def fadd_Fin round64_def y_def)
  have le: "3 * 2 ^ 1016 \<le> y" using assms by (simp add: y_def)
  from roundPos_cases [of y] have m: "fmul (roundPos y) (Fin 100) = PInf"
  proof (elim disjE exE)
    assume "roundPos y = PInf"
    then show ?thesis by (simp add: fmul_def withSign_def)
  next
    fix v assume rv: "roundPos y = Fin v"
    from roundPos_ge [OF d0 isDouble_three le rv] have v: "3 * 2 ^ 1016 \<le> v" .
    then have v0: "0 < v" using d0 by linarith
    define k :: rat where "k = 2 ^ 1016"
    have p: "(2::rat) powi 1024 = 256 * k" by (simp add: k_def)
    have "0 < k" by (simp add: k_def)
    moreover have "3 * k \<le> v" using v by (simp add: k_def)
    ultimately have "2 powi 1024 \<le> v * 100" unfolding p by linarith
    from roundPos_overflow [OF this] v0 show ?thesis
      by (simp add: rv fmul_def round64_def)
  qed
  show ?thesis unfolding round2_def s m by (simp add: fdiv_def withSign_def)
qed

lemma share_overflow:
  assumes "isFinite a" "\<bar>valueOf a * p\<bar> \<le> 2 powi 1023"
    and "3 * 2 ^ 1016 + 2 powi 970 \<le> valueOf a * p"
  shows "round2 (fmul a (Fin p)) = PInf"
proof -
  have f: "isFinite (Fin p)" by simp
  from fmul_error [OF assms(1) f, of 1023] assms(2)
  have fin: "isFinite (fmul a (Fin p))"
    and err: "\<bar>valueOf (fmul a (Fin p)) - valueOf a * p\<bar> \<le> 2 powi 970"
    by simp_all
  define w where "w = valueOf (fmul a (Fin p))"
  define t where "t = valueOf a * p"
  define c :: rat where "c = 2 powi 970"
  from err assms(3) have "3 * 2 ^ 1016 \<le> w"
    unfolding w_def [symmetric] t_def [symmetric] c_def [symmetric] abs_le_iff by auto
  moreover from this have "w \<noteq> 0" by auto
  then have "fmul a (Fin p) = Fin w" using fin unfolding w_def by (cases "fmul a (Fin p)") simp_all
  ultimately show ?thesis by (simp add: round2_overflow)
qed

text \<open>
  The rows \<^verbatim>\<open>[{A,150},{B,50}]\<close> with the amount \<^verbatim>\<open>1e307\<close>, the double nearest to
  \<open>10 ^ 307\<close>: the shares are about \<open>7.5 * 10 ^ 306\<close> and \<open>2.5 * 10 ^ 306\<close>, and 100 times
  each is beyond the largest double, so that \<open>round2\<close> gives \<^verbatim>\<open>Infinity\<close> for both. Their
  difference is NaN, which is not 0 and compares with nothing: the summary takes the last
  branch and names A, whose amount is not the smaller one, as the payer.
\<close>

theorem two_party_overflow_counterexample:
  "isFinite (round64 (10 ^ 307)) \<and> length rows1 = 2 \<and> gt (totalKm rows1) (Fin 0) \<and>
   euros (computed rows1 (round64 (10 ^ 307)) ! 0) = PInf \<and>
   euros (computed rows1 (round64 (10 ^ 307)) ! 1) = PInf \<and>
   settleDiff (computed rows1 (round64 (10 ^ 307)) ! 0) (computed rows1 (round64 (10 ^ 307)) ! 1) = NaN \<and>
   \<not> strictEq NaN (Fin 0) \<and>
   \<not> gt (euros (computed rows1 (round64 (10 ^ 307)) ! 1)) (euros (computed rows1 (round64 (10 ^ 307)) ! 0)) \<and>
   summary rows1 (round64 (10 ^ 307)) = str ''A moet '' @ euro @ str ''NaN aan B betalen.''"
proof -
  define A where "A = round64 (10 ^ 307)"
  define a where "a = valueOf A"
  have "\<bar>10 ^ 307 :: rat\<bar> \<le> 2 powi 1020" by simp
  from round64_error [OF this]
  have f: "isFinite A" and e: "\<bar>a - 10 ^ 307\<bar> \<le> 2 powi 967"
    by (simp_all add: A_def a_def)
  define c :: rat where "c = 10 ^ 307"
  define d :: rat where "d = 2 powi 967"
  have lo: "c - d \<le> a" and hi: "a \<le> c + d"
    using e unfolding c_def [symmetric] d_def [symmetric] abs_le_iff by auto
  have n1: "3 * 2 ^ 1016 + 2 powi 970 \<le> (c - d) * (1 / 4)" by (simp add: c_def d_def)
  have n2: "(c + d) * (3 / 4) \<le> 2 powi 1023" by (simp add: c_def d_def)
  have n3: "0 \<le> c - d" by (simp add: c_def d_def)
  have a0: "0 \<le> a" using lo n3 by linarith
  define u :: rat where "u = 3 * 2 ^ 1016 + 2 powi 970"
  define m :: rat where "m = 2 powi 1023"
  have q1: "u \<le> a * (1 / 4)" and q3: "u \<le> a * (3 / 4)"
    and b1: "\<bar>a * (1 / 4)\<bar> \<le> m" and b3: "\<bar>a * (3 / 4)\<bar> \<le> m"
    using lo hi a0 n1 n2 unfolding u_def [symmetric] m_def [symmetric] by simp_all
  have s1: "round2 (fmul A (Fin (1 / 4))) = PInf"
    using share_overflow [OF f, of "1 / 4"] b1 q1 by (simp add: a_def u_def m_def)
  have s3: "round2 (fmul A (Fin (3 / 4))) = PInf"
    using share_overflow [OF f, of "3 / 4"] b3 q3 by (simp add: a_def u_def m_def)
  have t1: "totalKm rows1 = Fin 200"
    by (simp add: rows1_def totalKm_def num_eval)
  have p1: "fdiv (Fin 150) (Fin 200) = Fin (3 / 4)" and p2: "fdiv (Fin 50) (Fin 200) = Fin (1 / 4)"
    by (simp_all add: num_eval)
  have o: "orZero (Fin 150) = Fin 150" "orZero (Fin 50) = Fin 50" by (simp_all add: orZero_def)
  have w1: "round2 (fmul (Fin (3 / 4)) (Fin 100)) = Fin 75"
    and w2: "round2 (fmul (Fin (1 / 4)) (Fin 100)) = Fin 25"
    by (simp_all add: num_eval)
  have g: "gt (Fin 200) (Fin 0)" by (simp add: gt_def)
  have c1: "computed rows1 A =
     [\<lparr>name = str ''A'', km = Fin 150, pct = Fin 75, euros = PInf\<rparr>,
      \<lparr>name = str ''B'', km = Fin 50, pct = Fin 25, euros = PInf\<rparr>]"
    unfolding rows1_def computed_def
    by (simp add: Let_def t1 [unfolded rows1_def] g o p1 p2 w1 w2 s1 s3)
  have l: "length rows1 = 2" by (simp add: rows1_def)
  have df: "settleDiff (computed rows1 A ! 0) (computed rows1 A ! 1) = NaN"
    unfolding c1 settleDiff_def by (simp add: fsub_def fadd_def round2_def fmul_def fdiv_def)
  have ns: "\<not> strictEq NaN (Fin 0)" by (simp add: strictEq_def)
  have ng: "\<not> gt (euros (computed rows1 A ! 1)) (euros (computed rows1 A ! 0))"
    unfolding c1 by (simp add: gt_def)
  have r: "round2 (fsub PInf PInf) = NaN" "round2 (mathAbs (fsub PInf PInf)) = NaN"
    by (simp_all add: fsub_def fadd_def round2_def fmul_def fdiv_def)
  have sm: "summary rows1 A = str ''A moet '' @ euro @ str ''NaN aan B betalen.''"
    unfolding summary_def c1 t1 l
    by (simp add: Let_def r gt_def strictEq_def) (simp add: str_def)
  from f l g t1 c1 df ns ng sm show ?thesis
    unfolding A_def [symmetric] by simp
qed

section \<open>Rounding to cents\<close>

lemma round2_value:
  assumes "isFinite x" "\<bar>valueOf x\<bar> \<le> 2 ^ 38"
  shows "valueOf (round2 x) = valueOf (round64 (of_int (roundedCents x) / 100))"
proof -
  define y where "y = fmul (fadd x EPSILON) (Fin 100)"
  have yf: "isFinite y" unfolding y_def by (rule round2_steps(1) [OF assms])
  have k: "valueOf (mathRound y) = of_int (roundedCents x)" and mf: "isFinite (mathRound y)"
    using mathRound_value [OF yf] by (simp_all add: roundedCents_def y_def)
  have r: "round2 x = fdiv (mathRound y) (Fin 100)" by (simp add: round2_def y_def)
  show ?thesis
  proof (cases "isZero (mathRound y)")
    case True
    then have "valueOf (mathRound y) = 0" by (cases "mathRound y") simp_all
    with k have "roundedCents x = 0" by simp
    moreover have "valueOf (fdiv (mathRound y) (Fin 100)) = 0"
      using True mf by (cases "mathRound y") (simp_all add: fdiv_def withSign_def)
    ultimately show ?thesis by (simp add: r round64_def)
  next
    case False
    then have "fdiv (mathRound y) (Fin 100) = round64 (valueOf (mathRound y) / 100)"
      using mf by (cases "mathRound y") (simp_all add: fdiv_def)
    then show ?thesis by (simp add: r k)
  qed
qed

lemma isDouble_half_int:
  assumes "\<bar>n\<bar> < 2 ^ 50"
  shows "isDouble (of_int n + 1 / 2)"
proof -
  have m: "\<bar>2 * n + 1\<bar> < 2 ^ 53" using assms by simp
  then have b: "bitlen \<bar>2 * n + 1\<bar> \<le> 53" by (simp add: bitlen_le_iff_power)
  have "(of_int n + 1 / 2 :: rat) = of_int (2 * n + 1) * 2 powi (- 1)"
    by (simp add: power_int_minus_divide field_simps)
  then show ?thesis
    unfolding isDouble_def using m b by (intro exI [of _ "2 * n + 1"] exI [of _ "- 1"]) simp
qed

lemma tie_cents:
  assumes "isFinite x" "genuine x" "\<bar>valueOf x\<bar> \<le> 2 ^ 38"
    and tie: "100 * valueOf x - of_int \<lfloor>100 * valueOf x\<rfloor> = 1 / 2"
  shows "roundedCents x = \<lfloor>100 * valueOf x\<rfloor> + 1"
proof -
  define a where "a = valueOf x"
  define n where "n = \<lfloor>100 * a\<rfloor>"
  have an: "100 * a = of_int n + 1 / 2" using tie by (simp add: a_def n_def)
  have a38: "\<bar>a\<bar> \<le> 2 ^ 38" using assms(3) by (simp add: a_def)
  have a0: "a \<noteq> 0"
  proof
    assume "a = 0"
    with an have "(of_int (2 * n + 1) :: rat) = of_int 0" by simp
    then have "2 * n + 1 = 0" by (simp only: of_int_eq_iff)
    then show False by presburger
  qed
  from assms(1,2) a0 have xa: "x = Fin a" and da: "isDouble a"
    by (cases x; simp add: a_def)+
  define z where "z = fadd x EPSILON"
  define y where "y = fmul z (Fin 100)"
  have zr: "z = round64 (a + 1 / 2 ^ 52)" by (simp add: z_def xa EPSILON_def fadd_Fin)
  have "\<bar>a + 1 / 2 ^ 52\<bar> \<le> (2::rat) powi 39" using a38 unfolding abs_le_iff by auto
  then have zf: "isFinite z" unfolding zr using round64_error [of "a + 1 / 2 ^ 52" 39] by simp
  have az: "a \<le> valueOf z"
    unfolding zr using zf [unfolded zr] by (intro round64_ge da) simp_all
  have yf: "isFinite y" and yerr: "\<bar>valueOf y - 100 * a\<bar> \<le> 1 / 64"
    using round2_steps(1,2) [OF assms(1,3)] by (simp_all add: y_def z_def a_def)
  have nb: "\<bar>n\<bar> < 2 ^ 50"
  proof -
    have "\<bar>100 * a\<bar> \<le> 100 * 2 ^ 38" using a38 by (simp add: abs_mult)
    then have "\<bar>of_int n :: rat\<bar> \<le> 100 * 2 ^ 38 + 1" unfolding an abs_le_iff by auto
    also have "\<dots> < of_int (2 ^ 50)" by simp
    finally have "(of_int \<bar>n\<bar> :: rat) < of_int (2 ^ 50)" by simp
    then show ?thesis by (simp only: of_int_less_iff)
  qed
  have dn: "isDouble (100 * a)" unfolding an by (rule isDouble_half_int [OF nb])
  have ylo: "100 * a \<le> valueOf y"
  proof (cases "isZero z")
    case True
    then have "valueOf z = 0" by (cases z) simp_all
    with az have "100 * a \<le> 0" by simp
    moreover have "valueOf y = 0"
      using True zf by (cases z) (simp_all add: y_def fmul_def withSign_def)
    ultimately show ?thesis by simp
  next
    case False
    then have yr: "y = round64 (valueOf z * 100)"
      using zf by (cases z) (simp_all add: y_def fmul_def)
    have "100 * a \<le> valueOf z * 100" using az by simp
    then show ?thesis
      unfolding yr using yf [unfolded yr] by (intro round64_ge dn)
  qed
  have "of_int (n + 1) \<le> valueOf y + 1 / 2" using ylo an by simp
  then have lo: "n + 1 \<le> \<lfloor>valueOf y + 1 / 2\<rfloor>" by (simp only: le_floor_iff)
  have "valueOf y + 1 / 2 < of_int (n + 2)" using yerr an unfolding abs_le_iff by auto
  then have hi: "\<lfloor>valueOf y + 1 / 2\<rfloor> < n + 2" by (simp only: floor_less_iff)
  from lo hi have "\<lfloor>valueOf y + 1 / 2\<rfloor> = n + 1" by simp
  then show ?thesis by (simp add: roundedCents_def y_def z_def n_def a_def)
qed

text \<open>
  C7. For a finite double \<open>x\<close> of magnitude at most \<open>2 ^ 38\<close>, \<open>round2 x\<close> is the double
  nearest to \<open>k / 100\<close> for an integer \<open>k\<close> that is a nearest integer to \<open>100 * x\<close> up to
  \<open>1 / 64\<close>, the effect of the added epsilon and of the rounding of the sum and the
  product; and when \<open>100 * x\<close> lies exactly half way between two integers, \<open>k\<close> is the
  upper one, for a negative \<open>x\<close> as for a positive one: \<^verbatim>\<open>Math.round\<close> resolves a tie
  towards plus infinity. So \<open>round2 (- 0.125)\<close> is \<open>- 0.12\<close>, where rounding away from
  zero gives \<open>- 0.13\<close>.
\<close>

theorem round2_nearest_cent:
  assumes "isFinite x" "genuine x" "\<bar>valueOf x\<bar> \<le> 2 ^ 38"
  shows "isFinite (round2 x) \<and>
    valueOf (round2 x) = valueOf (round64 (of_int (roundedCents x) / 100)) \<and>
    \<bar>of_int (roundedCents x) - 100 * valueOf x\<bar> \<le> 1 / 2 + 1 / 64 \<and>
    (100 * valueOf x - of_int \<lfloor>100 * valueOf x\<rfloor> = 1 / 2 \<longrightarrow>
       roundedCents x = \<lfloor>100 * valueOf x\<rfloor> + 1)"
proof (intro conjI impI)
  show "isFinite (round2 x)" by (rule round2_steps(3) [OF assms(1,3)])
  show "valueOf (round2 x) = valueOf (round64 (of_int (roundedCents x) / 100))"
    by (rule round2_value [OF assms(1,3)])
  let ?y = "valueOf (fmul (fadd x EPSILON) (Fin 100))"
  have a: "\<bar>?y - 100 * valueOf x\<bar> \<le> 1 / 64" by (rule round2_steps(2) [OF assms(1,3)])
  have b: "\<bar>of_int (roundedCents x) - ?y\<bar> \<le> (1 / 2 :: rat)"
    unfolding roundedCents_def by (rule floor_half_error)
  define k :: rat where "k = of_int (roundedCents x)"
  define yv where "yv = ?y"
  define av where "av = 100 * valueOf x"
  from a b have "\<bar>k - av\<bar> \<le> 1 / 2 + 1 / 64"
    unfolding k_def [symmetric] yv_def [symmetric] av_def [symmetric] abs_le_iff by auto
  then show "\<bar>of_int (roundedCents x) - 100 * valueOf x\<bar> \<le> 1 / 2 + 1 / 64"
    by (simp add: k_def av_def)
next
  assume "100 * valueOf x - of_int \<lfloor>100 * valueOf x\<rfloor> = 1 / 2"
  then show "roundedCents x = \<lfloor>100 * valueOf x\<rfloor> + 1"
    by (rule tie_cents [OF assms])
qed

lemma isDouble_eighth: "isDouble (- (1 / 8))"
proof -
  have "(- (1 / 8) :: rat) = of_int (- 1) * 2 powi (- 3)"
    by (simp add: power_int_minus_divide)
  moreover have "bitlen 1 = 1" by (simp add: compute_bitlen)
  ultimately show ?thesis
    unfolding isDouble_def by (intro exI [of _ "- 1"] exI [of _ "- 3"]) simp
qed

theorem round2_negative_tie_counterexample:
  "100 * (- (1 / 8)) - of_int \<lfloor>100 * (- (1 / 8)) :: rat\<rfloor> = (1 / 2 :: rat) \<and>
   halfAway (100 * (- (1 / 8))) = - 13 \<and>
   round2 (Fin (- (1 / 8))) = round64 (- (12 / 100)) \<and>
   round2 (Fin (- (1 / 8))) \<noteq> round64 (of_int (halfAway (100 * (- (1 / 8)))) / 100)"
proof -
  have t: "100 * (- (1 / 8)) - of_int \<lfloor>100 * (- (1 / 8)) :: rat\<rfloor> = (1 / 2 :: rat)"
    by (simp add: floor_frac_neg)
  have h: "halfAway (100 * (- (1 / 8))) = - 13"
    by (simp add: halfAway_def floor_frac_num)
  have r: "round2 (Fin (- (1 / 8))) = Fin (- (1080863910568919 / 9007199254740992))"
    by (simp add: num_eval)
  have a: "round64 (- (12 / 100)) = Fin (- (1080863910568919 / 9007199254740992))"
    by (simp add: num_eval)
  have b: "round64 (- (13 / 100)) = Fin (- (1170935903116329 / 9007199254740992))"
    by (simp add: num_eval)
  have "round2 (Fin (- (1 / 8))) \<noteq> round64 (of_int (halfAway (100 * (- (1 / 8)))) / 100)"
    unfolding h r using b by simp
  with t h r a show ?thesis by simp
qed

theorem round2_nearest_cent_witness:
  "isFinite (Fin (- (1 / 8))) \<and> genuine (Fin (- (1 / 8))) \<and>
   \<bar>valueOf (Fin (- (1 / 8)))\<bar> \<le> 2 ^ 38 \<and>
   100 * valueOf (Fin (- (1 / 8))) - of_int \<lfloor>100 * valueOf (Fin (- (1 / 8)))\<rfloor> = 1 / 2 \<and>
   roundedCents (Fin (- (1 / 8))) = - 12 \<and>
   valueOf (round2 (Fin (- (1 / 8)))) = valueOf (round64 (- (12 / 100)))"
proof -
  have f: "isFinite (Fin (- (1 / 8)))" by simp
  have g: "genuine (Fin (- (1 / 8)))" by (simp add: isDouble_eighth)
  have b: "\<bar>valueOf (Fin (- (1 / 8)))\<bar> \<le> 2 ^ 38" by simp
  have fl: "\<lfloor>100 * valueOf (Fin (- (1 / 8)))\<rfloor> = - 13" by (simp add: floor_frac_neg)
  have t: "100 * valueOf (Fin (- (1 / 8))) - of_int \<lfloor>100 * valueOf (Fin (- (1 / 8)))\<rfloor> = 1 / 2"
    unfolding fl by simp
  from round2_nearest_cent [OF f g b] t
  have c: "roundedCents (Fin (- (1 / 8))) = \<lfloor>100 * valueOf (Fin (- (1 / 8)))\<rfloor> + 1"
    and v: "valueOf (round2 (Fin (- (1 / 8)))) =
      valueOf (round64 (of_int (roundedCents (Fin (- (1 / 8)))) / 100))"
    by blast+
  from c fl have c12: "roundedCents (Fin (- (1 / 8))) = - 12" by simp
  from v c12 have "valueOf (round2 (Fin (- (1 / 8)))) = valueOf (round64 (- (12 / 100)))" by simp
  with f g b t c12 show ?thesis by blast
qed

end
